theory Spec2Isabelle
  imports Main
begin

section \<open>Paths (the part of pathlib the program uses)\<close>

text \<open>
  The program builds every path with \<^verbatim>\<open>Path(s)\<close>, \<^verbatim>\<open>p / q\<close> and
  \<^verbatim>\<open>str(p)\<close> on a POSIX system. A path is its root and its components: pathlib
  drops empty components and \<^verbatim>\<open>.\<close>, keeps \<^verbatim>\<open>..\<close>, and keeps a root of
  exactly two slashes apart from the root of one slash.
\<close>

datatype anchor = Relative | Root | DoubleRoot

record path =
  anchor :: anchor
  parts :: "string list"

fun split_slash :: "string \<Rightarrow> string \<Rightarrow> string list" where
  "split_slash acc [] = [rev acc]"
| "split_slash acc (c # cs) =
     (if c = CHR ''/'' then rev acc # split_slash [] cs else split_slash (c # acc) cs)"

definition Path :: "string \<Rightarrow> path" where
  "Path s =
     \<lparr>anchor = (if take 1 s \<noteq> ''/'' then Relative
                else if take 2 s = ''//'' \<and> take 3 s \<noteq> ''///'' then DoubleRoot
                else Root),
      parts = filter (\<lambda>c. c \<noteq> [] \<and> c \<noteq> ''.'') (split_slash [] s)\<rparr>"

definition is_absolute :: "path \<Rightarrow> bool" where
  "is_absolute p = (anchor p \<noteq> Relative)"

text \<open>\<^verbatim>\<open>p / q\<close>: an absolute right operand replaces the left one.\<close>

definition pdiv :: "path \<Rightarrow> path \<Rightarrow> path" where
  "pdiv p q = (if is_absolute q then q else \<lparr>anchor = anchor p, parts = parts p @ parts q\<rparr>)"

fun join_slash :: "string list \<Rightarrow> string" where
  "join_slash [] = []"
| "join_slash [c] = c"
| "join_slash (c # cs) = c @ ''/'' @ join_slash cs"

text \<open>\<^verbatim>\<open>str(p)\<close>, which the f-strings of the entry point call.\<close>

definition path_str :: "path \<Rightarrow> string" where
  "path_str p =
     (case anchor p of
        Relative \<Rightarrow> (if parts p = [] then ''.'' else join_slash (parts p))
      | Root \<Rightarrow> ''/'' @ join_slash (parts p)
      | DoubleRoot \<Rightarrow> ''//'' @ join_slash (parts p))"

section \<open>Config: the package-wide constants\<close>

text \<open>
  The class attributes of \<^verbatim>\<open>Config\<close> and their getters. \<^verbatim>\<open>Path.home()\<close> and
  \<^verbatim>\<open>__package__\<close> are values of the running process: they are the parameters
  \<open>home\<close> and \<open>pkg\<close>.
\<close>

definition version :: string where
  "version = ''0.1.0''"

definition executable :: string where
  "executable = ''vsm''"

definition package :: "string \<Rightarrow> string" where
  "package pkg = pkg"

definition config_dir :: "path \<Rightarrow> string \<Rightarrow> path" where
  "config_dir home pkg = pdiv (pdiv home (Path ''.config'')) (Path pkg)"

definition vsm_env_var :: string where
  "vsm_env_var = ''VIM_SESSIONS''"

definition default_sessions_directory :: "path \<Rightarrow> path" where
  "default_sessions_directory home = pdiv (pdiv home (Path ''.config'')) (Path ''vim_sessions'')"

section \<open>The world the entry point runs in\<close>

text \<open>
  Result values of the \<^verbatim>\<open>result\<close> package are sums: \<open>Inr\<close> is \<^verbatim>\<open>Ok\<close>,
  \<open>Inl\<close> is \<^verbatim>\<open>Err\<close>.
\<close>

datatype session_error = SessionNotFound path

datatype execution_error = ExecutionFailure string

datatype logged = Msg string | SessionErr session_error | ExecErr execution_error

datatype py_exception = FileNotFoundError | TypeError | KeyError

text \<open>Every call the entry point makes on a collaborator, with what the call returned.\<close>

datatype event =
    EvIsInstalled string bool
  | EvCli
  | EvVimSessionManager
  | EvListSessions
  | EvPrint string
  | EvRemoveSession path "session_error + path"
  | EvOpenSession path "session_error + path"
  | EvUnlink path
  | EvExecute string "execution_error + unit"
  | EvLogError logged
  | EvLogWarn logged
  | EvLogInfo logged

record world =
  w_home :: path
  w_environ :: "string \<Rightarrow> string option"
  w_files :: "path list"
  w_search_path :: "string list"
  w_shell :: "string \<Rightarrow> path list \<Rightarrow> (execution_error + unit) \<times> path list"
  w_trace :: "event list"

definition emit :: "event \<Rightarrow> world \<Rightarrow> world" where
  "emit e w = w\<lparr>w_trace := w_trace w @ [e]\<rparr>"

text \<open>
  Modelled from the spec: \<^verbatim>\<open>vsm.cli.Cli\<close> is not among the sources. These are
  the four options the entry point reads from \<^verbatim>\<open>Cli().args\<close>: two switches and two
  optional strings.
\<close>

record cli_args =
  arg_list_sessions :: bool
  arg_remove_session :: "string option"
  arg_open_session :: "string option"
  arg_the_current_state_of_things :: bool

text \<open>Python's truth value of an optional string: \<^verbatim>\<open>None\<close> and \<^verbatim>\<open>""\<close> are false.\<close>

fun truthy :: "string option \<Rightarrow> bool" where
  "truthy None = False"
| "truthy (Some s) = (s \<noteq> [])"

subsection \<open>Log, ShellManager, VimSessionManager\<close>

text \<open>
  Modelled from the spec: \<^verbatim>\<open>vsm.log.Log\<close> is not among the sources.
  \<^verbatim>\<open>Log.error\<close> reports a line to the user and touches nothing else.
\<close>

definition log_error :: "logged \<Rightarrow> world \<Rightarrow> world" where
  "log_error m w = emit (EvLogError m) w"

text \<open>
  Modelled from the spec: \<^verbatim>\<open>Log.warn\<close> of the missing \<^verbatim>\<open>vsm.log\<close>, a
  line to the user and nothing else.
\<close>

definition log_warn :: "logged \<Rightarrow> world \<Rightarrow> world" where
  "log_warn m w = emit (EvLogWarn m) w"

text \<open>
  Modelled from the spec: \<^verbatim>\<open>Log.info\<close> of the missing \<^verbatim>\<open>vsm.log\<close>, a
  line to the user and nothing else.
\<close>

definition log_info :: "logged \<Rightarrow> world \<Rightarrow> world" where
  "log_info m w = emit (EvLogInfo m) w"

text \<open>
  Modelled from the spec: \<^verbatim>\<open>vsm.utils.ShellManager\<close> is not among the sources.
  \<^verbatim>\<open>is_installed\<close> is true iff an executable of that name is resolvable on the
  search path, and has no side effect.
\<close>

definition is_installed :: "string \<Rightarrow> world \<Rightarrow> bool \<times> world" where
  "is_installed name w =
     (let r = (name \<in> set (w_search_path w)) in (r, emit (EvIsInstalled name r) w))"

text \<open>
  Modelled from the spec: \<^verbatim>\<open>ShellManager.execute\<close>, missing with its module,
  runs the command, blocks until the child exits, and returns \<^verbatim>\<open>Ok\<close> iff it
  exited with status 0. What the child does to the files is the world's \<open>w_shell\<close>.
\<close>

definition execute :: "string \<Rightarrow> world \<Rightarrow> (execution_error + unit) \<times> world" where
  "execute cmd w =
     (let (r, fs) = w_shell w cmd (w_files w)
      in (r, emit (EvExecute cmd r) (w\<lparr>w_files := fs\<rparr>)))"

text \<open>
  Modelled from the spec: \<^verbatim>\<open>vsm.session_manager.VimSessionManager\<close> is not
  among the sources. The sessions directory is the value of the environment variable
  when it is set and non-empty, else the default of Config. The name of the variable
  and the default are those of the Config class above.
\<close>

definition resolve_sessions_directory :: "world \<Rightarrow> path" where
  "resolve_sessions_directory w =
     (case w_environ w vsm_env_var of
        None \<Rightarrow> default_sessions_directory (w_home w)
      | Some v \<Rightarrow> if v \<noteq> [] then Path v else default_sessions_directory (w_home w))"

text \<open>
  Modelled from the spec: a name is resolved under the sessions directory, an absolute
  path is used as it is; the result is \<^verbatim>\<open>Ok\<close> of the resolved path iff that file
  exists, \<^verbatim>\<open>SessionNotFound\<close> otherwise.
\<close>

definition resolve_session :: "world \<Rightarrow> path \<Rightarrow> session_error + path" where
  "resolve_session w p =
     (let q = (if is_absolute p then p else pdiv (resolve_sessions_directory w) p)
      in if q \<in> set (w_files w) then Inr q else Inl (SessionNotFound p))"

text \<open>
  Modelled from the spec: \<^verbatim>\<open>open_session\<close> of the missing
  \<^verbatim>\<open>VimSessionManager\<close> returns that resolution and changes nothing.
\<close>

definition open_session :: "path \<Rightarrow> world \<Rightarrow> (session_error + path) \<times> world" where
  "open_session p w =
     (let r = resolve_session w p in (r, emit (EvOpenSession p r) w))"

text \<open>
  Modelled from the spec: \<^verbatim>\<open>remove_session\<close> of the missing
  \<^verbatim>\<open>VimSessionManager\<close> resolves as \<^verbatim>\<open>open_session\<close> does, returns the
  resolved path and deletes nothing.
\<close>

definition remove_session :: "path \<Rightarrow> world \<Rightarrow> (session_error + path) \<times> world" where
  "remove_session p w =
     (let r = resolve_session w p in (r, emit (EvRemoveSession p r) w))"

text \<open>
  Modelled from the spec: the listing of the missing \<^verbatim>\<open>VimSessionManager\<close>
  takes the files directly inside the sessions directory and none of a subdirectory.
\<close>

definition directly_inside :: "path \<Rightarrow> path \<Rightarrow> bool" where
  "directly_inside d f =
     (anchor f = anchor d \<and> parts f \<noteq> [] \<and> butlast (parts f) = parts d)"

text \<open>
  Modelled from the spec: \<^verbatim>\<open>list_sessions\<close> of the missing
  \<^verbatim>\<open>VimSessionManager\<close> reports every such file, in order; a missing directory
  has none, so the listing is empty.
\<close>

definition list_sessions :: "world \<Rightarrow> world" where
  "list_sessions w =
     (let found = filter (directly_inside (resolve_sessions_directory w)) (w_files w)
      in w\<lparr>w_trace := w_trace w @ EvListSessions # map (\<lambda>f. EvPrint (path_str f)) found\<rparr>)"

text \<open>\<^verbatim>\<open>Path.unlink\<close> of the standard library: a missing file raises.\<close>

definition unlink :: "path \<Rightarrow> world \<Rightarrow> py_exception + world" where
  "unlink p w =
     (if p \<in> set (w_files w)
      then Inr (emit (EvUnlink p) (w\<lparr>w_files := removeAll p (w_files w)\<rparr>))
      else Inl FileNotFoundError)"

section \<open>The entry point\<close>

datatype outcome = Exit int | Uncaught py_exception

text \<open>
  \<^verbatim>\<open>main\<close> of \<^verbatim>\<open>vsm/main.py\<close>. The preflight is Python's
  \<^verbatim>\<open>not A and not B\<close>: the second test runs only when the first one is true.
  It gives whether no editor was found.
\<close>

definition preflight :: "world \<Rightarrow> bool \<times> world" where
  "preflight w0 =
     (let (nvim, w1) = is_installed ''nvim'' w0
      in if \<not> nvim
         then (let (vim, w2) = is_installed ''vim'' w1 in (\<not> vim, w2))
         else (False, w1))"

text \<open>The bodies of the five branches of the \<^verbatim>\<open>if\<close>/\<^verbatim>\<open>elif\<close> chain.\<close>

definition branch_list :: "world \<Rightarrow> outcome \<times> world" where
  "branch_list w = (Exit 0, list_sessions w)"

definition branch_remove :: "string \<Rightarrow> world \<Rightarrow> outcome \<times> world" where
  "branch_remove x w =
     (let session = Path x
      in case remove_session session w of
           (Inr value, w1) \<Rightarrow>
             (let w2 = log_warn (Msg (''Removing session -> '' @ path_str value)) w1
              in case unlink value w2 of
                   Inl exc \<Rightarrow> (Uncaught exc, w2)
                 | Inr w3 \<Rightarrow> (Exit 0, log_info (Msg ''Done..'') w3))
         | (Inl e, w1) \<Rightarrow> (Exit 1, log_error (SessionErr e) w1))"

definition branch_open :: "string \<Rightarrow> world \<Rightarrow> outcome \<times> world" where
  "branch_open x w =
     (let session = Path x
      in case open_session session w of
           (Inr value, w1) \<Rightarrow>
             (let w2 = log_info (Msg (''Loading session -> '' @ path_str value)) w1
              in case execute (''nvim -S '' @ path_str value) w2 of
                   (Inr _, w3) \<Rightarrow> (Exit 0, w3)
                 | (Inl fail, w3) \<Rightarrow> (Exit 1, log_error (ExecErr fail) w3))
         | (Inl e, w1) \<Rightarrow> (Exit 1, log_error (SessionErr e) w1))"

definition branch_status :: "world \<Rightarrow> outcome \<times> world" where
  "branch_status w =
     (Exit 0, log_warn (Msg ''This feature is currently under development'') w)"

definition usage_message :: "string \<Rightarrow> string" where
  "usage_message pkg =
     ''No arguments give, please use `'' @ package pkg @ '' --help` for usage information''"

definition branch_none :: "string \<Rightarrow> world \<Rightarrow> outcome \<times> world" where
  "branch_none pkg w = (Exit 1, log_error (Msg (usage_message pkg)) w)"

text \<open>
  \<open>pkg\<close> is \<^verbatim>\<open>Config.package()\<close>; \<open>args\<close> is what \<^verbatim>\<open>Cli()\<close> parsed from
  the command line. The constructors \<^verbatim>\<open>Cli()\<close> and
  \<^verbatim>\<open>VimSessionManager()\<close> belong to modules that are not among the sources:
  they are recorded in the trace and, as the specification describes both classes,
  change nothing.
\<close>

definition main :: "string \<Rightarrow> cli_args \<Rightarrow> world \<Rightarrow> outcome \<times> world" where
  "main pkg args w0 =
     (let (missing, w1) = preflight w0
      in if missing
         then (Exit 1, log_error (Msg ''No variant of vim was found on your system'') w1)
         else
          (let w2 = emit EvCli w1;
               w3 = emit EvVimSessionManager w2
           in if arg_list_sessions args then branch_list w3
              else if truthy (arg_remove_session args)
              then branch_remove (the (arg_remove_session args)) w3
              else if truthy (arg_open_session args)
              then branch_open (the (arg_open_session args)) w3
              else if arg_the_current_state_of_things args then branch_status w3
              else branch_none pkg w3))"

section \<open>ThreadSafeMeta: the singleton metaclass\<close>

type_synonym obj = nat

datatype lock_event = Acquire | Release

text \<open>
  The state \<^verbatim>\<open>ThreadSafeMeta.__call__\<close> works on: the dictionary
  \<^verbatim>\<open>_instances\<close> from a class to its instance, the objects built so far with the
  state their constructor gave them, and the history of \<^verbatim>\<open>_lock\<close>.
\<close>

record ('c, 'st) meta =
  instances :: "'c \<Rightarrow> obj option"
  heap :: "obj \<Rightarrow> 'st option"
  next_ref :: obj
  lock_log :: "lock_event list"

definition acquire :: "('c, 'st) meta \<Rightarrow> ('c, 'st) meta" where
  "acquire m = m\<lparr>lock_log := lock_log m @ [Acquire]\<rparr>"

definition release :: "('c, 'st) meta \<Rightarrow> ('c, 'st) meta" where
  "release m = m\<lparr>lock_log := lock_log m @ [Release]\<rparr>"

text \<open>\<^verbatim>\<open>return cls._instances[cls]\<close>: a missing key raises.\<close>

definition return_instance :: "'c \<Rightarrow> ('c, 'st) meta \<Rightarrow> (py_exception + obj) \<times> ('c, 'st) meta" where
  "return_instance cls m =
     (case instances m cls of None \<Rightarrow> (Inl KeyError, m) | Some r \<Rightarrow> (Inr r, m))"

text \<open>
  One call \<^verbatim>\<open>cls(*args, **kwargs)\<close> by one thread. \<open>ctor\<close> is
  \<^verbatim>\<open>super().__call__\<close>: the class's own construction, which raises or gives the
  new object's state. An exception leaves the \<^verbatim>\<open>with\<close> block through the lock's
  release.
\<close>

definition meta_call ::
  "('c \<Rightarrow> 'a \<Rightarrow> py_exception + 'st) \<Rightarrow> 'c \<Rightarrow> 'a \<Rightarrow> ('c, 'st) meta
     \<Rightarrow> (py_exception + obj) \<times> ('c, 'st) meta" where
  "meta_call ctor cls args m0 =
     (let m1 = acquire m0
      in if instances m1 cls = None
         then (case ctor cls args of
                 Inl exc \<Rightarrow> (Inl exc, release m1)
               | Inr st \<Rightarrow>
                   (let instance = next_ref m1;
                        m2 = m1\<lparr>heap := (heap m1)(instance \<mapsto> st),
                                next_ref := Suc instance\<rparr>;
                        m3 = m2\<lparr>instances := (instances m2)(cls \<mapsto> instance)\<rparr>
                    in return_instance cls (release m3)))
         else return_instance cls (release m1))"

definition meta_init :: "('c, 'st) meta" where
  "meta_init = \<lparr>instances = (\<lambda>_. None), heap = (\<lambda>_. None), next_ref = 0, lock_log = []\<rparr>"

text \<open>The one class of the package that uses the metaclass; it takes no arguments.\<close>

datatype cls = Config

definition config_ctor :: "cls \<Rightarrow> string list \<Rightarrow> py_exception + unit" where
  "config_ctor c args = (if args = [] then Inr () else Inl TypeError)"

subsection \<open>Calls from several threads\<close>

text \<open>
  Where a call stands in \<^verbatim>\<open>__call__\<close>: before the \<^verbatim>\<open>with\<close>, at the membership
  test, at the construction, at the store into the dictionary, at the end of the
  \<^verbatim>\<open>with\<close> block (normally, or with the constructor's exception), at the
  \<^verbatim>\<open>return\<close>, or finished.
\<close>

datatype pc =
    AtAcquire | AtCheck | AtConstruct | AtStore obj | AtRelease | AtReleaseExc
  | AtReturn | Done obj | Raised

record 'c sys =
  lock :: "nat option"
  insts :: "'c \<Rightarrow> obj option"
  fresh :: obj
  built :: "('c \<times> obj) list"
  pcs :: "pc list"

text \<open>
  The next step of call \<open>t\<close>. A call waiting for a lock that another call holds, and a
  finished call, leave the state as it is. \<open>cls_of t\<close> is the class call \<open>t\<close> is made
  on, \<open>ctor_ok t\<close> whether its construction would succeed; \<open>built\<close> records every
  construction that succeeded.
\<close>

definition thread_step :: "(nat \<Rightarrow> 'c) \<Rightarrow> (nat \<Rightarrow> bool) \<Rightarrow> nat \<Rightarrow> 'c sys \<Rightarrow> 'c sys" where
  "thread_step cls_of ctor_ok t s =
     (if \<not> t < length (pcs s) then s
      else case pcs s ! t of
        AtAcquire \<Rightarrow>
          (if lock s = None then s\<lparr>lock := Some t, pcs := (pcs s)[t := AtCheck]\<rparr> else s)
      | AtCheck \<Rightarrow>
          (if insts s (cls_of t) = None then s\<lparr>pcs := (pcs s)[t := AtConstruct]\<rparr>
           else s\<lparr>pcs := (pcs s)[t := AtRelease]\<rparr>)
      | AtConstruct \<Rightarrow>
          (if ctor_ok t
           then s\<lparr>fresh := Suc (fresh s), built := built s @ [(cls_of t, fresh s)],
                   pcs := (pcs s)[t := AtStore (fresh s)]\<rparr>
           else s\<lparr>pcs := (pcs s)[t := AtReleaseExc]\<rparr>)
      | AtStore r \<Rightarrow>
          s\<lparr>insts := (insts s)(cls_of t \<mapsto> r), pcs := (pcs s)[t := AtRelease]\<rparr>
      | AtRelease \<Rightarrow> s\<lparr>lock := None, pcs := (pcs s)[t := AtReturn]\<rparr>
      | AtReleaseExc \<Rightarrow> s\<lparr>lock := None, pcs := (pcs s)[t := Raised]\<rparr>
      | AtReturn \<Rightarrow>
          (case insts s (cls_of t) of
             None \<Rightarrow> s\<lparr>pcs := (pcs s)[t := Raised]\<rparr>
           | Some r \<Rightarrow> s\<lparr>pcs := (pcs s)[t := Done r]\<rparr>)
      | Done r \<Rightarrow> s
      | Raised \<Rightarrow> s)"

text \<open>A schedule is the order in which the calls take their steps.\<close>

fun run :: "(nat \<Rightarrow> 'c) \<Rightarrow> (nat \<Rightarrow> bool) \<Rightarrow> nat list \<Rightarrow> 'c sys \<Rightarrow> 'c sys" where
  "run cls_of ctor_ok [] s = s"
| "run cls_of ctor_ok (t # ts) s = run cls_of ctor_ok ts (thread_step cls_of ctor_ok t s)"

text \<open>The process at its start: \<open>n\<close> calls about to be made, no instance, the lock free.\<close>

definition sys_init :: "nat \<Rightarrow> 'c sys" where
  "sys_init n =
     \<lparr>lock = None, insts = (\<lambda>_. None), fresh = 0, built = [], pcs = replicate n AtAcquire\<rparr>"

definition constructions :: "'c \<Rightarrow> 'c sys \<Rightarrow> nat" where
  "constructions c s = length (filter (\<lambda>b. fst b = c) (built s))"

definition finished :: "pc \<Rightarrow> bool" where
  "finished p = (case p of Done r \<Rightarrow> True | Raised \<Rightarrow> True | _ \<Rightarrow> False)"

subsection \<open>What holds at each point of a call\<close>

definition in_critical :: "pc \<Rightarrow> bool" where
  "in_critical p =
     (case p of AtCheck \<Rightarrow> True | AtConstruct \<Rightarrow> True | AtStore r \<Rightarrow> True
      | AtRelease \<Rightarrow> True | AtReleaseExc \<Rightarrow> True | _ \<Rightarrow> False)"

text \<open>
  The assertion at each point of \<^verbatim>\<open>__call__\<close>, for call \<open>t\<close>: inside the
  \<^verbatim>\<open>with\<close> block the call holds the lock; past a failed membership test the class
  has no instance yet; from the end of the block on it has one.
\<close>

definition pc_ok :: "(nat \<Rightarrow> 'c) \<Rightarrow> (nat \<Rightarrow> bool) \<Rightarrow> 'c sys \<Rightarrow> nat \<Rightarrow> pc \<Rightarrow> bool" where
  "pc_ok cls_of ctor_ok s t p =
     (case p of
        AtAcquire \<Rightarrow> True
      | AtCheck \<Rightarrow> lock s = Some t
      | AtConstruct \<Rightarrow> lock s = Some t \<and> insts s (cls_of t) = None
      | AtStore r \<Rightarrow> lock s = Some t \<and> insts s (cls_of t) = None
      | AtRelease \<Rightarrow> lock s = Some t \<and> insts s (cls_of t) \<noteq> None
      | AtReleaseExc \<Rightarrow> lock s = Some t \<and> \<not> ctor_ok t
      | AtReturn \<Rightarrow> insts s (cls_of t) \<noteq> None
      | Done r \<Rightarrow> insts s (cls_of t) = Some r
      | Raised \<Rightarrow> \<not> ctor_ok t)"

definition sys_inv :: "(nat \<Rightarrow> 'c) \<Rightarrow> (nat \<Rightarrow> bool) \<Rightarrow> 'c sys \<Rightarrow> bool" where
  "sys_inv cls_of ctor_ok s =
     ((\<forall>t < length (pcs s). pc_ok cls_of ctor_ok s t (pcs s ! t))
      \<and> (\<forall>t. lock s = Some t \<longrightarrow> t < length (pcs s) \<and> in_critical (pcs s ! t))
      \<and> distinct (map fst (built s))
      \<and> (\<forall>c r. (c, r) \<in> set (built s) \<longrightarrow>
            insts s c = Some r
            \<or> (\<exists>t < length (pcs s). pcs s ! t = AtStore r \<and> cls_of t = c)))"

text \<open>How many steps a call at this point still has to take, at most.\<close>

definition steps_left :: "pc \<Rightarrow> nat" where
  "steps_left p =
     (case p of AtAcquire \<Rightarrow> 6 | AtCheck \<Rightarrow> 5 | AtConstruct \<Rightarrow> 4 | AtStore r \<Rightarrow> 3
      | AtRelease \<Rightarrow> 2 | AtReleaseExc \<Rightarrow> 2 | AtReturn \<Rightarrow> 1 | Done r \<Rightarrow> 0 | Raised \<Rightarrow> 0)"

definition work_left :: "'c sys \<Rightarrow> nat" where
  "work_left s = sum_list (map steps_left (pcs s))"

text \<open>
  Two concurrent first calls of \<^verbatim>\<open>Config()\<close>: call 0 takes the lock, call 1 waits
  for it, call 0 constructs, stores and releases, call 1 enters and finds the instance,
  and both return.
\<close>

definition two_calls :: "cls sys" where
  "two_calls =
     run (\<lambda>t. Config) (\<lambda>t. True) [0, 1, 0, 0, 0, 0, 1, 1, 1, 0, 1] (sys_init 2)"

text \<open>The state after the first \<^verbatim>\<open>Config()\<close> of a process.\<close>

definition after_first_call :: "(cls, unit) meta" where
  "after_first_call = snd (meta_call config_ctor Config [] meta_init)"

section \<open>Notions the properties are stated with\<close>

definition editor_installed :: "world \<Rightarrow> bool" where
  "editor_installed w =
     (''nvim'' \<in> set (w_search_path w) \<or> ''vim'' \<in> set (w_search_path w))"

text \<open>The queries of the preflight, as the short-circuit leaves them.\<close>

definition preflight_events :: "world \<Rightarrow> event list" where
  "preflight_events w =
     (if ''nvim'' \<in> set (w_search_path w) then [EvIsInstalled ''nvim'' True]
      else [EvIsInstalled ''nvim'' False,
            EvIsInstalled ''vim'' (''vim'' \<in> set (w_search_path w))])"

text \<open>The world in which the dispatch starts, once the preflight has passed.\<close>

definition booted :: "world \<Rightarrow> world" where
  "booted w = w\<lparr>w_trace := w_trace w @ preflight_events w @ [EvCli, EvVimSessionManager]\<rparr>"

text \<open>What one run of the entry point adds to the trace.\<close>

definition events_of :: "string \<Rightarrow> cli_args \<Rightarrow> world \<Rightarrow> event list" where
  "events_of pkg args w = drop (length (w_trace w)) (w_trace (snd (main pkg args w)))"

text \<open>
  The selection as the specification words it: the flags in their priority order, the
  first that matches decides, and no flag at all is the fallback.
\<close>

datatype flag = ListFlag | RemoveFlag | OpenFlag | StatusFlag | NoArgs

fun flag_matches :: "cli_args \<Rightarrow> flag \<Rightarrow> bool" where
  "flag_matches args ListFlag = arg_list_sessions args"
| "flag_matches args RemoveFlag = truthy (arg_remove_session args)"
| "flag_matches args OpenFlag = truthy (arg_open_session args)"
| "flag_matches args StatusFlag = arg_the_current_state_of_things args"
| "flag_matches args NoArgs = True"

definition priority :: "flag list" where
  "priority = [ListFlag, RemoveFlag, OpenFlag, StatusFlag]"

definition first_match :: "cli_args \<Rightarrow> flag" where
  "first_match args =
     (case find (flag_matches args) priority of None \<Rightarrow> NoArgs | Some f \<Rightarrow> f)"

fun run_flag :: "string \<Rightarrow> cli_args \<Rightarrow> flag \<Rightarrow> world \<Rightarrow> outcome \<times> world" where
  "run_flag pkg args ListFlag w = branch_list w"
| "run_flag pkg args RemoveFlag w = branch_remove (the (arg_remove_session args)) w"
| "run_flag pkg args OpenFlag w = branch_open (the (arg_open_session args)) w"
| "run_flag pkg args StatusFlag w = branch_status w"
| "run_flag pkg args NoArgs w = branch_none pkg w"

text \<open>The branch a call on the session manager, the shell or a file belongs to.\<close>

fun owner :: "event \<Rightarrow> flag option" where
  "owner EvListSessions = Some ListFlag"
| "owner (EvPrint l) = Some ListFlag"
| "owner (EvRemoveSession p r) = Some RemoveFlag"
| "owner (EvUnlink p) = Some RemoveFlag"
| "owner (EvOpenSession p r) = Some OpenFlag"
| "owner (EvExecute c r) = Some OpenFlag"
| "owner e = None"

text \<open>The events that read or change the files.\<close>

fun file_operation :: "event \<Rightarrow> bool" where
  "file_operation EvListSessions = True"
| "file_operation (EvRemoveSession p r) = True"
| "file_operation (EvOpenSession p r) = True"
| "file_operation (EvUnlink p) = True"
| "file_operation (EvExecute c r) = True"
| "file_operation e = False"

definition no_flags :: "cli_args \<Rightarrow> bool" where
  "no_flags args =
     (\<not> arg_list_sessions args \<and> \<not> truthy (arg_remove_session args)
      \<and> \<not> truthy (arg_open_session args) \<and> \<not> arg_the_current_state_of_things args)"

subsection \<open>Example inputs\<close>

text \<open>
  A user \<^verbatim>\<open>u\<close> with \<^verbatim>\<open>VIM_SESSIONS=/tmp/x\<close>, the session
  \<^verbatim>\<open>/tmp/x/foo.vim\<close>, and \<^verbatim>\<open>nvim\<close> installed, whose runs succeed.
\<close>

definition example_world :: world where
  "example_world =
     \<lparr>w_home = Path ''/home/u'',
      w_environ = (\<lambda>k. if k = ''VIM_SESSIONS'' then Some ''/tmp/x'' else None),
      w_files = [Path ''/tmp/x/foo.vim''],
      w_search_path = [''nvim''],
      w_shell = (\<lambda>cmd fs. (Inr (), fs)),
      w_trace = []\<rparr>"

text \<open>The same machine with no editor on the search path.\<close>

definition no_editor_world :: world where
  "no_editor_world = example_world\<lparr>w_search_path := []\<rparr>"

text \<open>The same machine with an editor that exits with a failure.\<close>

definition failing_shell_world :: world where
  "failing_shell_world =
     example_world\<lparr>w_shell := (\<lambda>cmd fs. (Inl (ExecutionFailure ''exit status 1''), fs))\<rparr>"

text \<open>
  Two calls of \<^verbatim>\<open>Config()\<close> one after the other: call 0 has run to its end, call 1
  has not started.
\<close>

definition first_call_done :: "cls sys" where
  "first_call_done = run (\<lambda>t. Config) (\<lambda>t. True) [0, 0, 0, 0, 0, 0] (sys_init 2)"

definition args_none :: cli_args where
  "args_none =
     \<lparr>arg_list_sessions = False, arg_remove_session = None, arg_open_session = None,
      arg_the_current_state_of_things = False\<rparr>"

definition args_remove_foo :: cli_args where
  "args_remove_foo = args_none\<lparr>arg_remove_session := Some ''foo.vim''\<rparr>"

definition args_open_foo :: cli_args where
  "args_open_foo = args_none\<lparr>arg_open_session := Some ''foo.vim''\<rparr>"

definition args_list_and_open :: cli_args where
  "args_list_and_open = args_open_foo\<lparr>arg_list_sessions := True\<rparr>"

section \<open>What the collaborators and the branches do\<close>

lemmas op_defs = is_installed_def emit_def log_error_def log_warn_def log_info_def
  execute_def open_session_def remove_session_def list_sessions_def unlink_def

lemmas eval_defs = main_def preflight_def branch_list_def branch_remove_def branch_open_def
  branch_status_def branch_none_def op_defs resolve_session_def resolve_sessions_directory_def
  default_sessions_directory_def vsm_env_var_def Path_def pdiv_def is_absolute_def
  path_str_def directly_inside_def usage_message_def package_def Let_def

lemmas example_defs = example_world_def no_editor_world_def failing_shell_world_def
  args_none_def args_remove_foo_def args_open_foo_def args_list_and_open_def

lemma preflight_eq:
  "preflight w = (\<not> editor_installed w, w\<lparr>w_trace := w_trace w @ preflight_events w\<rparr>)"
  by (simp add: preflight_def editor_installed_def preflight_events_def op_defs Let_def)

lemma first_match_eq:
  "first_match args =
     (if arg_list_sessions args then ListFlag
      else if truthy (arg_remove_session args) then RemoveFlag
      else if truthy (arg_open_session args) then OpenFlag
      else if arg_the_current_state_of_things args then StatusFlag
      else NoArgs)"
  by (simp add: first_match_def priority_def)

lemma first_match_open:
  "first_match args = OpenFlag \<Longrightarrow> \<exists>x. arg_open_session args = Some x \<and> x \<noteq> []"
  by (cases "arg_open_session args") (auto simp: first_match_eq split: if_splits)

lemma first_match_remove:
  "first_match args = RemoveFlag \<Longrightarrow> \<exists>x. arg_remove_session args = Some x \<and> x \<noteq> []"
  by (cases "arg_remove_session args") (auto simp: first_match_eq split: if_splits)

lemma main_eq:
  "main pkg args w =
     (if editor_installed w then run_flag pkg args (first_match args) (booted w)
      else (Exit 1, w\<lparr>w_trace := w_trace w @ preflight_events w @
              [EvLogError (Msg ''No variant of vim was found on your system'')]\<rparr>))"
  by (simp add: main_def preflight_eq first_match_eq booted_def emit_def log_error_def)

lemma events_ofI:
  "w_trace (snd (main pkg args w)) = w_trace w @ evs \<Longrightarrow> events_of pkg args w = evs"
  by (simp add: events_of_def)

lemma booted_simps:
  "w_trace (booted w) = w_trace w @ preflight_events w @ [EvCli, EvVimSessionManager]"
  "w_files (booted w) = w_files w"
  "w_shell (booted w) = w_shell w"
  by (simp_all add: booted_def)

lemma resolve_sessions_directory_booted:
  "resolve_sessions_directory (booted w) = resolve_sessions_directory w"
  by (simp add: resolve_sessions_directory_def booted_def split: option.splits)

lemma resolve_session_booted: "resolve_session (booted w) p = resolve_session w p"
  by (simp add: resolve_session_def resolve_sessions_directory_booted) (simp add: booted_def)

lemma resolve_session_exists: "resolve_session w p = Inr q \<Longrightarrow> q \<in> set (w_files w)"
  by (auto simp: resolve_session_def Let_def split: if_splits)

lemma branch_list_eq:
  "branch_list w =
     (Exit 0, w\<lparr>w_trace := w_trace w @ EvListSessions #
        map (\<lambda>f. EvPrint (path_str f))
          (filter (directly_inside (resolve_sessions_directory w)) (w_files w))\<rparr>)"
  by (simp add: branch_list_def list_sessions_def)

lemma branch_status_eq:
  "branch_status w =
     (Exit 0, w\<lparr>w_trace := w_trace w @
        [EvLogWarn (Msg ''This feature is currently under development'')]\<rparr>)"
  by (simp add: branch_status_def op_defs)

lemma branch_none_eq:
  "branch_none pkg w =
     (Exit 1, w\<lparr>w_trace := w_trace w @ [EvLogError (Msg (usage_message pkg))]\<rparr>)"
  by (simp add: branch_none_def op_defs)

lemma branch_remove_ok:
  assumes "resolve_session w (Path x) = Inr q"
  shows "branch_remove x w =
     (Exit 0, w\<lparr>w_files := removeAll q (w_files w),
                w_trace := w_trace w @
                  [EvRemoveSession (Path x) (Inr q),
                   EvLogWarn (Msg (''Removing session -> '' @ path_str q)),
                   EvUnlink q, EvLogInfo (Msg ''Done..'')]\<rparr>)"
  using assms resolve_session_exists [OF assms]
  by (simp add: branch_remove_def op_defs Let_def)

lemma branch_remove_err:
  assumes "resolve_session w (Path x) = Inl e"
  shows "branch_remove x w =
     (Exit 1, w\<lparr>w_trace := w_trace w @
                  [EvRemoveSession (Path x) (Inl e), EvLogError (SessionErr e)]\<rparr>)"
  using assms by (simp add: branch_remove_def op_defs Let_def)

lemma branch_open_err:
  assumes "resolve_session w (Path x) = Inl e"
  shows "branch_open x w =
     (Exit 1, w\<lparr>w_trace := w_trace w @
                  [EvOpenSession (Path x) (Inl e), EvLogError (SessionErr e)]\<rparr>)"
  using assms by (simp add: branch_open_def op_defs Let_def)

lemma branch_open_ok:
  assumes "resolve_session w (Path x) = Inr q"
    and "w_shell w (''nvim -S '' @ path_str q) (w_files w) = (r, fs)"
  shows "branch_open x w =
     (case r of Inr u \<Rightarrow> Exit 0 | Inl fail \<Rightarrow> Exit 1,
      w\<lparr>w_files := fs,
        w_trace := w_trace w @
          [EvOpenSession (Path x) (Inr q),
           EvLogInfo (Msg (''Loading session -> '' @ path_str q)),
           EvExecute (''nvim -S '' @ path_str q) r]
          @ (case r of Inr u \<Rightarrow> [] | Inl fail \<Rightarrow> [EvLogError (ExecErr fail)])\<rparr>)"
  using assms by (simp add: branch_open_def op_defs Let_def split: sum.splits)

lemma branch_remove_cases:
  obtains (err) e where "resolve_session w (Path x) = Inl e"
      and "branch_remove x w =
             (Exit 1, w\<lparr>w_trace := w_trace w @
                [EvRemoveSession (Path x) (Inl e), EvLogError (SessionErr e)]\<rparr>)"
  | (ok) q where "resolve_session w (Path x) = Inr q"
      and "branch_remove x w =
             (Exit 0, w\<lparr>w_files := removeAll q (w_files w),
                w_trace := w_trace w @
                  [EvRemoveSession (Path x) (Inr q),
                   EvLogWarn (Msg (''Removing session -> '' @ path_str q)),
                   EvUnlink q, EvLogInfo (Msg ''Done..'')]\<rparr>)"
  by (cases "resolve_session w (Path x)") (auto dest: branch_remove_ok branch_remove_err)

lemma branch_open_cases:
  obtains (err) e where "resolve_session w (Path x) = Inl e"
      and "branch_open x w =
             (Exit 1, w\<lparr>w_trace := w_trace w @
                [EvOpenSession (Path x) (Inl e), EvLogError (SessionErr e)]\<rparr>)"
  | (ok) q fs where "resolve_session w (Path x) = Inr q"
      and "branch_open x w =
             (Exit 0, w\<lparr>w_files := fs, w_trace := w_trace w @
                [EvOpenSession (Path x) (Inr q),
                 EvLogInfo (Msg (''Loading session -> '' @ path_str q)),
                 EvExecute (''nvim -S '' @ path_str q) (Inr ())]\<rparr>)"
  | (fail) q fs f where "resolve_session w (Path x) = Inr q"
      and "branch_open x w =
             (Exit 1, w\<lparr>w_files := fs, w_trace := w_trace w @
                [EvOpenSession (Path x) (Inr q),
                 EvLogInfo (Msg (''Loading session -> '' @ path_str q)),
                 EvExecute (''nvim -S '' @ path_str q) (Inl f),
                 EvLogError (ExecErr f)]\<rparr>)"
proof (cases "resolve_session w (Path x)")
  case (Inl e)
  then show ?thesis using err branch_open_err by blast
next
  case res: (Inr q)
  obtain r fs where sh: "w_shell w (''nvim -S '' @ path_str q) (w_files w) = (r, fs)"
    by (cases "w_shell w (''nvim -S '' @ path_str q) (w_files w)")
  show ?thesis
  proof (cases r)
    case (Inl f)
    with branch_open_ok [OF res sh] fail [OF res] show ?thesis by simp
  next
    case (Inr u)
    with branch_open_ok [OF res sh] ok [OF res] show ?thesis by simp
  qed
qed

lemma run_flag_owner:
  "\<exists>evs. w_trace (snd (run_flag pkg args f v)) = w_trace v @ evs
      \<and> (\<forall>e \<in> set evs. owner e = None \<or> owner e = Some f)"
proof (cases f)
  case ListFlag
  then show ?thesis by (auto simp: branch_list_eq)
next
  case RemoveFlag
  show ?thesis
    by (rule branch_remove_cases [of v "the (arg_remove_session args)"])
       (simp_all add: RemoveFlag)
next
  case OpenFlag
  show ?thesis
    by (rule branch_open_cases [of v "the (arg_open_session args)"])
       (simp_all add: OpenFlag)
next
  case StatusFlag
  then show ?thesis by (simp add: branch_status_eq)
next
  case NoArgs
  then show ?thesis by (simp add: branch_none_eq)
qed

lemma events_owner:
  "\<forall>e \<in> set (events_of pkg args w). owner e = None \<or> owner e = Some (first_match args)"
proof (cases "editor_installed w")
  case True
  obtain evs where t: "w_trace (snd (run_flag pkg args (first_match args) (booted w)))
        = w_trace (booted w) @ evs"
    and o: "\<forall>e \<in> set evs. owner e = None \<or> owner e = Some (first_match args)"
    using run_flag_owner by blast
  have "events_of pkg args w = preflight_events w @ [EvCli, EvVimSessionManager] @ evs"
    by (rule events_ofI) (simp add: main_eq True t booted_simps)
  with o show ?thesis by (auto simp: preflight_events_def)
next
  case False
  have "events_of pkg args w = preflight_events w @
            [EvLogError (Msg ''No variant of vim was found on your system'')]"
    by (rule events_ofI) (simp add: main_eq False)
  then show ?thesis by (auto simp: preflight_events_def)
qed

lemma events_missing:
  "\<not> editor_installed w \<Longrightarrow> events_of pkg args w =
     [EvIsInstalled ''nvim'' False, EvIsInstalled ''vim'' False,
      EvLogError (Msg ''No variant of vim was found on your system'')]"
  by (rule events_ofI) (simp add: main_eq preflight_events_def editor_installed_def)

lemma open_run:
  assumes "editor_installed w" and "first_match args = OpenFlag"
  shows "\<exists>x. arg_open_session args = Some x \<and> x \<noteq> [] \<and>
    ((\<exists>e. resolve_session w (Path x) = Inl e \<and> fst (main pkg args w) = Exit 1
          \<and> events_of pkg args w = preflight_events w @
               [EvCli, EvVimSessionManager,
                EvOpenSession (Path x) (Inl e), EvLogError (SessionErr e)])
     \<or> (\<exists>q. resolve_session w (Path x) = Inr q \<and> fst (main pkg args w) = Exit 0
          \<and> events_of pkg args w = preflight_events w @
               [EvCli, EvVimSessionManager,
                EvOpenSession (Path x) (Inr q),
                EvLogInfo (Msg (''Loading session -> '' @ path_str q)),
                EvExecute (''nvim -S '' @ path_str q) (Inr ())])
     \<or> (\<exists>q f. resolve_session w (Path x) = Inr q \<and> fst (main pkg args w) = Exit 1
          \<and> events_of pkg args w = preflight_events w @
               [EvCli, EvVimSessionManager,
                EvOpenSession (Path x) (Inr q),
                EvLogInfo (Msg (''Loading session -> '' @ path_str q)),
                EvExecute (''nvim -S '' @ path_str q) (Inl f),
                EvLogError (ExecErr f)]))"
proof -
  obtain x where x: "arg_open_session args = Some x" "x \<noteq> []"
    using first_match_open [OF assms(2)] by blast
  have m: "main pkg args w = branch_open x (booted w)"
    using assms x by (simp add: main_eq)
  show ?thesis
  proof (cases rule: branch_open_cases [of "booted w" x])
    case (err e)
    have "events_of pkg args w = preflight_events w @
               [EvCli, EvVimSessionManager,
                EvOpenSession (Path x) (Inl e), EvLogError (SessionErr e)]"
      by (rule events_ofI) (simp add: m err booted_simps)
    with err x m show ?thesis by (simp add: resolve_session_booted)
  next
    case (ok q fs)
    have "events_of pkg args w = preflight_events w @
               [EvCli, EvVimSessionManager,
                EvOpenSession (Path x) (Inr q),
                EvLogInfo (Msg (''Loading session -> '' @ path_str q)),
                EvExecute (''nvim -S '' @ path_str q) (Inr ())]"
      by (rule events_ofI) (simp add: m ok booted_simps)
    with ok x m show ?thesis by (simp add: resolve_session_booted)
  next
    case (fail q fs f)
    have "events_of pkg args w = preflight_events w @
               [EvCli, EvVimSessionManager,
                EvOpenSession (Path x) (Inr q),
                EvLogInfo (Msg (''Loading session -> '' @ path_str q)),
                EvExecute (''nvim -S '' @ path_str q) (Inl f),
                EvLogError (ExecErr f)]"
      by (rule events_ofI) (simp add: m fail booted_simps)
    with fail x m show ?thesis by (simp add: resolve_session_booted)
  qed
qed

lemma open_event_branch:
  assumes "EvOpenSession p r \<in> set (events_of pkg args w)"
  shows "editor_installed w \<and> first_match args = OpenFlag"
proof -
  have "editor_installed w"
    using assms events_missing [of w pkg args] by (cases "editor_installed w") auto
  moreover have "first_match args = OpenFlag"
    using assms events_owner [of pkg args w] by fastforce
  ultimately show ?thesis by simp
qed

lemma no_flags_first_match: "no_flags args \<Longrightarrow> first_match args = NoArgs"
  by (simp add: no_flags_def first_match_eq)

section \<open>Properties of the entry point\<close>

text \<open>
  Claim C5. When neither \<^verbatim>\<open>nvim\<close> nor \<^verbatim>\<open>vim\<close> is resolvable on the search
  path, the entry point logs an error and returns exit code 1 before anything else runs,
  whatever the flags: the run consists of the two lookups and the error line, the
  arguments are never parsed, no session is resolved, and the files are as they were.
\<close>

theorem preflight_fails_first:
  assumes "''nvim'' \<notin> set (w_search_path w)" and "''vim'' \<notin> set (w_search_path w)"
  shows "main pkg args w =
     (Exit 1, w\<lparr>w_trace := w_trace w @
        [EvIsInstalled ''nvim'' False, EvIsInstalled ''vim'' False,
         EvLogError (Msg ''No variant of vim was found on your system'')]\<rparr>)"
  using assms
  by (simp add: main_def preflight_eq editor_installed_def preflight_events_def op_defs)

theorem preflight_fails_first_witness:
  "''nvim'' \<notin> set (w_search_path no_editor_world)
   \<and> ''vim'' \<notin> set (w_search_path no_editor_world)
   \<and> main ''vsm'' args_remove_foo no_editor_world =
       (Exit 1, no_editor_world\<lparr>w_trace :=
          [EvIsInstalled ''nvim'' False, EvIsInstalled ''vim'' False,
           EvLogError (Msg ''No variant of vim was found on your system'')]\<rparr>)"
  using preflight_fails_first [of no_editor_world "''vsm''" args_remove_foo]
  by (simp add: example_defs)

text \<open>
  Claim C4. In every invocation the flags are checked in the fixed priority order list,
  remove, open, status, and then the fallback for no arguments, and only the branch of
  the first flag that matches executes: past the preflight the run is the body of that
  one branch, and every call the run makes on the session manager, the shell or a file
  belongs to that branch.
\<close>

theorem dispatch_first_match:
  "main pkg args w =
     (if editor_installed w then run_flag pkg args (first_match args) (booted w)
      else (Exit 1, w\<lparr>w_trace := w_trace w @ preflight_events w @
              [EvLogError (Msg ''No variant of vim was found on your system'')]\<rparr>))
   \<and> (\<forall>e \<in> set (events_of pkg args w). owner e = None \<or> owner e = Some (first_match args))"
  using main_eq [of pkg args w] events_owner [of pkg args w] by (rule conjI)

theorem dispatch_first_match_witness:
  "EvListSessions \<in> set (events_of ''vsm'' args_list_and_open example_world)
   \<and> owner EvListSessions = Some (first_match args_list_and_open)
   \<and> flag_matches args_list_and_open OpenFlag
   \<and> editor_installed example_world
   \<and> main ''vsm'' args_list_and_open example_world = branch_list (booted example_world)"
  using dispatch_first_match [of "''vsm''" args_list_and_open example_world]
  by (simp add: events_of_def eval_defs example_defs first_match_eq editor_installed_def
      booted_def preflight_events_def)

text \<open>
  Claim C1. \<^verbatim>\<open>remove_session\<close> deletes nothing itself: for every name whose
  resolution succeeds it returns the resolved path, as \<^verbatim>\<open>open_session\<close> would,
  and the session file still exists when it has returned; the unlink is a step of its
  own, which the entry point takes after \<^verbatim>\<open>remove_session\<close> has returned.
\<close>

theorem remove_session_keeps_file:
  assumes "resolve_session w p = Inr q"
  shows "remove_session p w = (Inr q, w\<lparr>w_trace := w_trace w @ [EvRemoveSession p (Inr q)]\<rparr>)
    \<and> fst (remove_session p w) = fst (open_session p w)
    \<and> w_files (snd (remove_session p w)) = w_files w
    \<and> q \<in> set (w_files (snd (remove_session p w)))
    \<and> (\<forall>pkg args x.
          editor_installed w \<and> first_match args = RemoveFlag
          \<and> arg_remove_session args = Some x \<and> Path x = p \<longrightarrow>
          fst (main pkg args w) = Exit 0
          \<and> events_of pkg args w =
              preflight_events w @
              [EvCli, EvVimSessionManager, EvRemoveSession p (Inr q),
               EvLogWarn (Msg (''Removing session -> '' @ path_str q)),
               EvUnlink q, EvLogInfo (Msg ''Done..'')]
          \<and> w_files (snd (main pkg args w)) = removeAll q (w_files w))"
proof (intro conjI allI impI)
  show "remove_session p w = (Inr q, w\<lparr>w_trace := w_trace w @ [EvRemoveSession p (Inr q)]\<rparr>)"
    using assms by (simp add: remove_session_def emit_def Let_def)
  then show "w_files (snd (remove_session p w)) = w_files w"
    and "q \<in> set (w_files (snd (remove_session p w)))"
    using resolve_session_exists [OF assms] by simp_all
  show "fst (remove_session p w) = fst (open_session p w)"
    by (simp add: remove_session_def open_session_def Let_def)
next
  fix pkg args x
  assume h: "editor_installed w \<and> first_match args = RemoveFlag
          \<and> arg_remove_session args = Some x \<and> Path x = p"
  then have r: "resolve_session (booted w) (Path x) = Inr q"
    using assms by (simp add: resolve_session_booted)
  have m: "main pkg args w = branch_remove x (booted w)"
    using h by (simp add: main_eq)
  note b = branch_remove_ok [OF r]
  show "fst (main pkg args w) = Exit 0" by (simp add: m b)
  show "events_of pkg args w =
              preflight_events w @
              [EvCli, EvVimSessionManager, EvRemoveSession p (Inr q),
               EvLogWarn (Msg (''Removing session -> '' @ path_str q)),
               EvUnlink q, EvLogInfo (Msg ''Done..'')]"
    using h by (intro events_ofI) (simp add: m b booted_simps)
  show "w_files (snd (main pkg args w)) = removeAll q (w_files w)"
    by (simp add: m b booted_simps)
qed

lemma example_resolve:
  "resolve_session example_world (Path ''foo.vim'') = Inr (Path ''/tmp/x/foo.vim'')"
  by (simp add: eval_defs example_defs)

theorem remove_session_keeps_file_witness:
  "resolve_session example_world (Path ''foo.vim'') = Inr (Path ''/tmp/x/foo.vim'')
   \<and> fst (remove_session (Path ''foo.vim'') example_world) = Inr (Path ''/tmp/x/foo.vim'')
   \<and> Path ''/tmp/x/foo.vim'' \<in> set (w_files (snd (remove_session (Path ''foo.vim'') example_world)))
   \<and> editor_installed example_world \<and> first_match args_remove_foo = RemoveFlag
   \<and> arg_remove_session args_remove_foo = Some ''foo.vim''
   \<and> events_of ''vsm'' args_remove_foo example_world =
        [EvIsInstalled ''nvim'' True, EvCli, EvVimSessionManager,
         EvRemoveSession (Path ''foo.vim'') (Inr (Path ''/tmp/x/foo.vim'')),
         EvLogWarn (Msg ''Removing session -> /tmp/x/foo.vim''),
         EvUnlink (Path ''/tmp/x/foo.vim''), EvLogInfo (Msg ''Done..'')]
   \<and> w_files (snd (main ''vsm'' args_remove_foo example_world)) = []"
proof -
  have r: "resolve_session example_world (Path ''foo.vim'') = Inr (Path ''/tmp/x/foo.vim'')"
    by (rule example_resolve)
  have e: "editor_installed example_world" "first_match args_remove_foo = RemoveFlag"
    "arg_remove_session args_remove_foo = Some ''foo.vim''"
    by (simp_all add: editor_installed_def first_match_eq example_defs)
  have p: "preflight_events example_world = [EvIsInstalled ''nvim'' True]"
    "path_str (Path ''/tmp/x/foo.vim'') = ''/tmp/x/foo.vim''"
    "removeAll (Path ''/tmp/x/foo.vim'') (w_files example_world) = []"
    by (simp_all add: preflight_events_def example_defs path_str_def Path_def)
  note t = remove_session_keeps_file [OF r]
  note t1 = t [THEN conjunct1]
  note t5 = t [THEN conjunct2, THEN conjunct2, THEN conjunct2, THEN conjunct2,
      rule_format, where pkg = "''vsm''" and args = args_remove_foo and x = "''foo.vim''"]
  have f: "Path ''/tmp/x/foo.vim'' \<in> set (w_files example_world)"
    by (simp add: example_defs)
  from t1 t5 r e p f show ?thesis
    by simp
qed

lemma main_open_eq:
  assumes "editor_installed w" and "first_match args = OpenFlag"
  shows "\<exists>x. arg_open_session args = Some x \<and> x \<noteq> [] \<and>
     main pkg args w =
       (case resolve_session w (Path x) of
          Inl e \<Rightarrow>
            (Exit 1,
             w\<lparr>w_trace := w_trace w @ preflight_events w @
                [EvCli, EvVimSessionManager,
                 EvOpenSession (Path x) (Inl e), EvLogError (SessionErr e)]\<rparr>)
        | Inr q \<Rightarrow>
            (case w_shell w (''nvim -S '' @ path_str q) (w_files w) of
               (Inr u, fs) \<Rightarrow>
                 (Exit 0,
                  w\<lparr>w_files := fs,
                    w_trace := w_trace w @ preflight_events w @
                      [EvCli, EvVimSessionManager,
                       EvOpenSession (Path x) (Inr q),
                       EvLogInfo (Msg (''Loading session -> '' @ path_str q)),
                       EvExecute (''nvim -S '' @ path_str q) (Inr u)]\<rparr>)
             | (Inl f, fs) \<Rightarrow>
                 (Exit 1,
                  w\<lparr>w_files := fs,
                    w_trace := w_trace w @ preflight_events w @
                      [EvCli, EvVimSessionManager,
                       EvOpenSession (Path x) (Inr q),
                       EvLogInfo (Msg (''Loading session -> '' @ path_str q)),
                       EvExecute (''nvim -S '' @ path_str q) (Inl f),
                       EvLogError (ExecErr f)]\<rparr>)))"
proof -
  obtain x where x: "arg_open_session args = Some x" "x \<noteq> []"
    using first_match_open [OF assms(2)] by blast
  have m: "main pkg args w = branch_open x (booted w)"
    using assms x by (simp add: main_eq)
  have "main pkg args w =
       (case resolve_session w (Path x) of
          Inl e \<Rightarrow>
            (Exit 1,
             w\<lparr>w_trace := w_trace w @ preflight_events w @
                [EvCli, EvVimSessionManager,
                 EvOpenSession (Path x) (Inl e), EvLogError (SessionErr e)]\<rparr>)
        | Inr q \<Rightarrow>
            (case w_shell w (''nvim -S '' @ path_str q) (w_files w) of
               (Inr u, fs) \<Rightarrow>
                 (Exit 0,
                  w\<lparr>w_files := fs,
                    w_trace := w_trace w @ preflight_events w @
                      [EvCli, EvVimSessionManager,
                       EvOpenSession (Path x) (Inr q),
                       EvLogInfo (Msg (''Loading session -> '' @ path_str q)),
                       EvExecute (''nvim -S '' @ path_str q) (Inr u)]\<rparr>)
             | (Inl f, fs) \<Rightarrow>
                 (Exit 1,
                  w\<lparr>w_files := fs,
                    w_trace := w_trace w @ preflight_events w @
                      [EvCli, EvVimSessionManager,
                       EvOpenSession (Path x) (Inr q),
                       EvLogInfo (Msg (''Loading session -> '' @ path_str q)),
                       EvExecute (''nvim -S '' @ path_str q) (Inl f),
                       EvLogError (ExecErr f)]\<rparr>)))"
  proof (cases "resolve_session w (Path x)")
    case (Inl e)
    then have "resolve_session (booted w) (Path x) = Inl e"
      by (simp add: resolve_session_booted)
    from branch_open_err [OF this] Inl show ?thesis
      by (simp add: m booted_def)
  next
    case res: (Inr q)
    then have rb: "resolve_session (booted w) (Path x) = Inr q"
      by (simp add: resolve_session_booted)
    obtain r fs where sh: "w_shell w (''nvim -S '' @ path_str q) (w_files w) = (r, fs)"
      by (cases "w_shell w (''nvim -S '' @ path_str q) (w_files w)")
    then have shb: "w_shell (booted w) (''nvim -S '' @ path_str q) (w_files (booted w)) = (r, fs)"
      by (simp add: booted_simps)
    from branch_open_ok [OF rb shb] res sh show ?thesis
      by (cases r) (simp_all add: m booted_def)
  qed
  with x show ?thesis by blast
qed

lemma open_resolved_run:
  assumes a: "EvOpenSession p (Inr q) \<in> set (events_of pkg args w)"
  shows "EvExecute (''nvim -S '' @ path_str q)
            (fst (w_shell w (''nvim -S '' @ path_str q) (w_files w)))
           \<in> set (events_of pkg args w)
    \<and> fst (main pkg args w) =
         (case fst (w_shell w (''nvim -S '' @ path_str q) (w_files w)) of
            Inr u \<Rightarrow> Exit 0 | Inl f \<Rightarrow> Exit 1)
    \<and> w_files (snd (main pkg args w)) =
         snd (w_shell w (''nvim -S '' @ path_str q) (w_files w))
    \<and> (\<forall>f. fst (w_shell w (''nvim -S '' @ path_str q) (w_files w)) = Inl f \<longrightarrow>
           EvLogError (ExecErr f) \<in> set (events_of pkg args w))"
proof -
  note b = open_event_branch [OF a]
  from main_open_eq [OF b [THEN conjunct1] b [THEN conjunct2], of pkg]
  obtain x where m: "main pkg args w =
       (case resolve_session w (Path x) of
          Inl e \<Rightarrow>
            (Exit 1,
             w\<lparr>w_trace := w_trace w @ preflight_events w @
                [EvCli, EvVimSessionManager,
                 EvOpenSession (Path x) (Inl e), EvLogError (SessionErr e)]\<rparr>)
        | Inr q \<Rightarrow>
            (case w_shell w (''nvim -S '' @ path_str q) (w_files w) of
               (Inr u, fs) \<Rightarrow>
                 (Exit 0,
                  w\<lparr>w_files := fs,
                    w_trace := w_trace w @ preflight_events w @
                      [EvCli, EvVimSessionManager,
                       EvOpenSession (Path x) (Inr q),
                       EvLogInfo (Msg (''Loading session -> '' @ path_str q)),
                       EvExecute (''nvim -S '' @ path_str q) (Inr u)]\<rparr>)
             | (Inl f, fs) \<Rightarrow>
                 (Exit 1,
                  w\<lparr>w_files := fs,
                    w_trace := w_trace w @ preflight_events w @
                      [EvCli, EvVimSessionManager,
                       EvOpenSession (Path x) (Inr q),
                       EvLogInfo (Msg (''Loading session -> '' @ path_str q)),
                       EvExecute (''nvim -S '' @ path_str q) (Inl f),
                       EvLogError (ExecErr f)]\<rparr>)))"
    by blast
  show ?thesis
  proof (cases "resolve_session w (Path x)")
    case (Inl e)
    have "events_of pkg args w = preflight_events w @
        [EvCli, EvVimSessionManager,
         EvOpenSession (Path x) (Inl e), EvLogError (SessionErr e)]"
      by (rule events_ofI) (simp add: m Inl)
    with a show ?thesis by (auto simp: preflight_events_def split: if_splits)
  next
    case res: (Inr q')
    obtain r fs where sh: "w_shell w (''nvim -S '' @ path_str q') (w_files w) = (r, fs)"
      by (cases "w_shell w (''nvim -S '' @ path_str q') (w_files w)")
    show ?thesis
    proof (cases r)
      case (Inl f)
      have e: "events_of pkg args w = preflight_events w @
          [EvCli, EvVimSessionManager,
           EvOpenSession (Path x) (Inr q'),
           EvLogInfo (Msg (''Loading session -> '' @ path_str q')),
           EvExecute (''nvim -S '' @ path_str q') (Inl f),
           EvLogError (ExecErr f)]"
        by (rule events_ofI) (use sh in \<open>simp add: m res Inl\<close>)
      with a have "q' = q" by (auto simp: preflight_events_def split: if_splits)
      with e sh Inl show ?thesis by (simp add: m res)
    next
      case (Inr u)
      have e: "events_of pkg args w = preflight_events w @
          [EvCli, EvVimSessionManager,
           EvOpenSession (Path x) (Inr q'),
           EvLogInfo (Msg (''Loading session -> '' @ path_str q')),
           EvExecute (''nvim -S '' @ path_str q') (Inr u)]"
        by (rule events_ofI) (use sh in \<open>simp add: m res Inr\<close>)
      with a have "q' = q" by (auto simp: preflight_events_def split: if_splits)
      with e sh Inr show ?thesis by (simp add: m res)
    qed
  qed
qed

lemma open_unresolved_run:
  assumes a: "EvOpenSession p (Inl e) \<in> set (events_of pkg args w)"
  shows "fst (main pkg args w) = Exit 1
    \<and> EvLogError (SessionErr e) \<in> set (events_of pkg args w)
    \<and> (\<forall>c r. EvExecute c r \<notin> set (events_of pkg args w))
    \<and> w_files (snd (main pkg args w)) = w_files w"
proof -
  note b = open_event_branch [OF a]
  from open_run [OF b [THEN conjunct1] b [THEN conjunct2], of pkg]
  obtain x where x: "arg_open_session args = Some x" "x \<noteq> []"
    and c: "(\<exists>e. resolve_session w (Path x) = Inl e \<and> fst (main pkg args w) = Exit 1
          \<and> events_of pkg args w = preflight_events w @
               [EvCli, EvVimSessionManager,
                EvOpenSession (Path x) (Inl e), EvLogError (SessionErr e)])
     \<or> (\<exists>q. resolve_session w (Path x) = Inr q \<and> fst (main pkg args w) = Exit 0
          \<and> events_of pkg args w = preflight_events w @
               [EvCli, EvVimSessionManager,
                EvOpenSession (Path x) (Inr q),
                EvLogInfo (Msg (''Loading session -> '' @ path_str q)),
                EvExecute (''nvim -S '' @ path_str q) (Inr ())])
     \<or> (\<exists>q f. resolve_session w (Path x) = Inr q \<and> fst (main pkg args w) = Exit 1
          \<and> events_of pkg args w = preflight_events w @
               [EvCli, EvVimSessionManager,
                EvOpenSession (Path x) (Inr q),
                EvLogInfo (Msg (''Loading session -> '' @ path_str q)),
                EvExecute (''nvim -S '' @ path_str q) (Inl f),
                EvLogError (ExecErr f)])"
    by blast
  from c a obtain e' where r: "resolve_session w (Path x) = Inl e'"
    and ev: "events_of pkg args w = preflight_events w @
               [EvCli, EvVimSessionManager,
                EvOpenSession (Path x) (Inl e'), EvLogError (SessionErr e')]"
    and ex: "fst (main pkg args w) = Exit 1"
    by (auto simp: preflight_events_def split: if_splits)
  from ev a have "e' = e" by (auto simp: preflight_events_def split: if_splits)
  have m: "main pkg args w = branch_open x (booted w)"
    using b x by (simp add: main_eq)
  have "resolve_session (booted w) (Path x) = Inl e'"
    using r by (simp add: resolve_session_booted)
  from branch_open_err [OF this] have f: "w_files (snd (main pkg args w)) = w_files w"
    by (simp add: m booted_simps)
  from ev ex f \<open>e' = e\<close> show ?thesis
    by (auto simp: preflight_events_def)
qed

text \<open>
  Claim C3. An invocation whose first matching flag is \<^verbatim>\<open>--open X\<close>, on a machine
  that passes the preflight, resolves \<^verbatim>\<open>Path(X)\<close> with
  \<^verbatim>\<open>open_session\<close>. When that resolves, the entry point logs the path, hands
  \<^verbatim>\<open>nvim -S <resolved path>\<close> to the shell, and its exit code is the shell's
  result: 0 when the child exited with 0, and 1 with the failure logged otherwise; the
  files are left as the child left them. When it fails to resolve, the entry point logs
  the error, executes nothing and exits with 1. In every invocation whatever, a resolved
  \<^verbatim>\<open>open_session\<close> call is followed by exactly that execution with the shell's own
  result, and a failed one by the error and exit code 1.
\<close>

theorem open_runs_nvim:
  "(editor_installed w \<and> first_match args = OpenFlag \<longrightarrow>
      (\<exists>x. arg_open_session args = Some x \<and>
         main pkg args w =
           (case resolve_session w (Path x) of
              Inl e \<Rightarrow>
                (Exit 1,
                 w\<lparr>w_trace := w_trace w @ preflight_events w @
                    [EvCli, EvVimSessionManager,
                     EvOpenSession (Path x) (Inl e), EvLogError (SessionErr e)]\<rparr>)
            | Inr q \<Rightarrow>
                (case w_shell w (''nvim -S '' @ path_str q) (w_files w) of
                   (Inr u, fs) \<Rightarrow>
                     (Exit 0,
                      w\<lparr>w_files := fs,
                        w_trace := w_trace w @ preflight_events w @
                          [EvCli, EvVimSessionManager,
                           EvOpenSession (Path x) (Inr q),
                           EvLogInfo (Msg (''Loading session -> '' @ path_str q)),
                           EvExecute (''nvim -S '' @ path_str q) (Inr u)]\<rparr>)
                 | (Inl f, fs) \<Rightarrow>
                     (Exit 1,
                      w\<lparr>w_files := fs,
                        w_trace := w_trace w @ preflight_events w @
                          [EvCli, EvVimSessionManager,
                           EvOpenSession (Path x) (Inr q),
                           EvLogInfo (Msg (''Loading session -> '' @ path_str q)),
                           EvExecute (''nvim -S '' @ path_str q) (Inl f),
                           EvLogError (ExecErr f)]\<rparr>)))))
   \<and> (\<forall>p q. EvOpenSession p (Inr q) \<in> set (events_of pkg args w) \<longrightarrow>
         EvExecute (''nvim -S '' @ path_str q)
            (fst (w_shell w (''nvim -S '' @ path_str q) (w_files w)))
           \<in> set (events_of pkg args w)
         \<and> fst (main pkg args w) =
             (case fst (w_shell w (''nvim -S '' @ path_str q) (w_files w)) of
                Inr u \<Rightarrow> Exit 0 | Inl f \<Rightarrow> Exit 1)
         \<and> w_files (snd (main pkg args w)) =
             snd (w_shell w (''nvim -S '' @ path_str q) (w_files w))
         \<and> (\<forall>f. fst (w_shell w (''nvim -S '' @ path_str q) (w_files w)) = Inl f \<longrightarrow>
               EvLogError (ExecErr f) \<in> set (events_of pkg args w)))
   \<and> (\<forall>p e. EvOpenSession p (Inl e) \<in> set (events_of pkg args w) \<longrightarrow>
         fst (main pkg args w) = Exit 1
         \<and> EvLogError (SessionErr e) \<in> set (events_of pkg args w)
         \<and> (\<forall>c r. EvExecute c r \<notin> set (events_of pkg args w))
         \<and> w_files (snd (main pkg args w)) = w_files w)"
proof (intro conjI)
  show "editor_installed w \<and> first_match args = OpenFlag \<longrightarrow>
      (\<exists>x. arg_open_session args = Some x \<and>
         main pkg args w =
           (case resolve_session w (Path x) of
              Inl e \<Rightarrow>
                (Exit 1,
                 w\<lparr>w_trace := w_trace w @ preflight_events w @
                    [EvCli, EvVimSessionManager,
                     EvOpenSession (Path x) (Inl e), EvLogError (SessionErr e)]\<rparr>)
            | Inr q \<Rightarrow>
                (case w_shell w (''nvim -S '' @ path_str q) (w_files w) of
                   (Inr u, fs) \<Rightarrow>
                     (Exit 0,
                      w\<lparr>w_files := fs,
                        w_trace := w_trace w @ preflight_events w @
                          [EvCli, EvVimSessionManager,
                           EvOpenSession (Path x) (Inr q),
                           EvLogInfo (Msg (''Loading session -> '' @ path_str q)),
                           EvExecute (''nvim -S '' @ path_str q) (Inr u)]\<rparr>)
                 | (Inl f, fs) \<Rightarrow>
                     (Exit 1,
                      w\<lparr>w_files := fs,
                        w_trace := w_trace w @ preflight_events w @
                          [EvCli, EvVimSessionManager,
                           EvOpenSession (Path x) (Inr q),
                           EvLogInfo (Msg (''Loading session -> '' @ path_str q)),
                           EvExecute (''nvim -S '' @ path_str q) (Inl f),
                           EvLogError (ExecErr f)]\<rparr>))))"
  proof
    assume "editor_installed w \<and> first_match args = OpenFlag"
    then have "editor_installed w" "first_match args = OpenFlag" by simp_all
    from main_open_eq [OF this, of pkg] show "\<exists>x. arg_open_session args = Some x \<and>
         main pkg args w =
           (case resolve_session w (Path x) of
              Inl e \<Rightarrow>
                (Exit 1,
                 w\<lparr>w_trace := w_trace w @ preflight_events w @
                    [EvCli, EvVimSessionManager,
                     EvOpenSession (Path x) (Inl e), EvLogError (SessionErr e)]\<rparr>)
            | Inr q \<Rightarrow>
                (case w_shell w (''nvim -S '' @ path_str q) (w_files w) of
                   (Inr u, fs) \<Rightarrow>
                     (Exit 0,
                      w\<lparr>w_files := fs,
                        w_trace := w_trace w @ preflight_events w @
                          [EvCli, EvVimSessionManager,
                           EvOpenSession (Path x) (Inr q),
                           EvLogInfo (Msg (''Loading session -> '' @ path_str q)),
                           EvExecute (''nvim -S '' @ path_str q) (Inr u)]\<rparr>)
                 | (Inl f, fs) \<Rightarrow>
                     (Exit 1,
                      w\<lparr>w_files := fs,
                        w_trace := w_trace w @ preflight_events w @
                          [EvCli, EvVimSessionManager,
                           EvOpenSession (Path x) (Inr q),
                           EvLogInfo (Msg (''Loading session -> '' @ path_str q)),
                           EvExecute (''nvim -S '' @ path_str q) (Inl f),
                           EvLogError (ExecErr f)]\<rparr>)))"
      by blast
  qed
next
  show "\<forall>p q. EvOpenSession p (Inr q) \<in> set (events_of pkg args w) \<longrightarrow>
         EvExecute (''nvim -S '' @ path_str q)
            (fst (w_shell w (''nvim -S '' @ path_str q) (w_files w)))
           \<in> set (events_of pkg args w)
         \<and> fst (main pkg args w) =
             (case fst (w_shell w (''nvim -S '' @ path_str q) (w_files w)) of
                Inr u \<Rightarrow> Exit 0 | Inl f \<Rightarrow> Exit 1)
         \<and> w_files (snd (main pkg args w)) =
             snd (w_shell w (''nvim -S '' @ path_str q) (w_files w))
         \<and> (\<forall>f. fst (w_shell w (''nvim -S '' @ path_str q) (w_files w)) = Inl f \<longrightarrow>
               EvLogError (ExecErr f) \<in> set (events_of pkg args w))"
    using open_resolved_run [of _ _ pkg args w] by blast
next
  show "\<forall>p e. EvOpenSession p (Inl e) \<in> set (events_of pkg args w) \<longrightarrow>
         fst (main pkg args w) = Exit 1
         \<and> EvLogError (SessionErr e) \<in> set (events_of pkg args w)
         \<and> (\<forall>c r. EvExecute c r \<notin> set (events_of pkg args w))
         \<and> w_files (snd (main pkg args w)) = w_files w"
    using open_unresolved_run [of _ _ pkg args w] by blast
qed

theorem open_runs_nvim_witness:
  "editor_installed example_world \<and> first_match args_open_foo = OpenFlag
   \<and> arg_open_session args_open_foo = Some ''foo.vim''
   \<and> main ''vsm'' args_open_foo example_world =
       (Exit 0,
        example_world\<lparr>w_trace :=
          [EvIsInstalled ''nvim'' True, EvCli, EvVimSessionManager,
           EvOpenSession (Path ''foo.vim'') (Inr (Path ''/tmp/x/foo.vim'')),
           EvLogInfo (Msg ''Loading session -> /tmp/x/foo.vim''),
           EvExecute ''nvim -S /tmp/x/foo.vim'' (Inr ())]\<rparr>)
   \<and> editor_installed failing_shell_world
   \<and> main ''vsm'' args_open_foo failing_shell_world =
       (Exit 1,
        failing_shell_world\<lparr>w_trace :=
          [EvIsInstalled ''nvim'' True, EvCli, EvVimSessionManager,
           EvOpenSession (Path ''foo.vim'') (Inr (Path ''/tmp/x/foo.vim'')),
           EvLogInfo (Msg ''Loading session -> /tmp/x/foo.vim''),
           EvExecute ''nvim -S /tmp/x/foo.vim'' (Inl (ExecutionFailure ''exit status 1'')),
           EvLogError (ExecErr (ExecutionFailure ''exit status 1''))]\<rparr>)"
  using open_runs_nvim [of example_world args_open_foo "''vsm''"]
    open_runs_nvim [of failing_shell_world args_open_foo "''vsm''"]
  by (simp add: eval_defs example_defs first_match_eq editor_installed_def)

text \<open>
  Claim C6, as amended. An invocation with no recognised flag always returns exit code
  1, leaves the files as they are and makes no call that reads or changes them, and logs
  one error: the line that tells the user to pass \<^verbatim>\<open>--help\<close> when an editor is
  installed, and the line of the preflight when none is.
\<close>

theorem no_flags_exit_1:
  assumes "no_flags args"
  shows "fst (main pkg args w) = Exit 1
    \<and> w_files (snd (main pkg args w)) = w_files w
    \<and> (\<forall>e \<in> set (events_of pkg args w). \<not> file_operation e)
    \<and> events_of pkg args w =
        preflight_events w @
        (if editor_installed w
         then [EvCli, EvVimSessionManager, EvLogError (Msg (usage_message pkg))]
         else [EvLogError (Msg ''No variant of vim was found on your system'')])"
proof -
  have m: "main pkg args w =
     (if editor_installed w
      then (Exit 1, booted w\<lparr>w_trace := w_trace (booted w) @
              [EvLogError (Msg (usage_message pkg))]\<rparr>)
      else (Exit 1, w\<lparr>w_trace := w_trace w @ preflight_events w @
              [EvLogError (Msg ''No variant of vim was found on your system'')]\<rparr>))"
    by (simp add: main_eq no_flags_first_match [OF assms] branch_none_eq)
  have e: "events_of pkg args w =
        preflight_events w @
        (if editor_installed w
         then [EvCli, EvVimSessionManager, EvLogError (Msg (usage_message pkg))]
         else [EvLogError (Msg ''No variant of vim was found on your system'')])"
    by (rule events_ofI) (simp add: m booted_simps)
  have "\<forall>e \<in> set (events_of pkg args w). \<not> file_operation e"
    by (simp add: e preflight_events_def)
  moreover have "fst (main pkg args w) = Exit 1"
    and "w_files (snd (main pkg args w)) = w_files w"
    by (simp_all add: m booted_simps)
  ultimately show ?thesis using e by blast
qed

theorem no_flags_exit_1_witness:
  "no_flags args_none
   \<and> fst (main ''vsm'' args_none example_world) = Exit 1
   \<and> w_files (snd (main ''vsm'' args_none example_world)) = [Path ''/tmp/x/foo.vim'']
   \<and> events_of ''vsm'' args_none example_world =
       [EvIsInstalled ''nvim'' True, EvCli, EvVimSessionManager,
        EvLogError (Msg ''No arguments give, please use `vsm --help` for usage information'')]"
  using no_flags_exit_1 [of args_none "''vsm''" example_world]
  by (simp add: no_flags_def example_defs preflight_events_def editor_installed_def
      usage_message_def package_def)

text \<open>
  Claim C6 as the specification states it fails on a machine without
  \<^verbatim>\<open>nvim\<close> and \<^verbatim>\<open>vim\<close>: the run with no flag ends in the preflight, and
  the line about \<^verbatim>\<open>--help\<close> is never logged.
\<close>

theorem no_flags_help_counterexample:
  "no_flags args_none
   \<and> fst (main ''vsm'' args_none no_editor_world) = Exit 1
   \<and> events_of ''vsm'' args_none no_editor_world =
       [EvIsInstalled ''nvim'' False, EvIsInstalled ''vim'' False,
        EvLogError (Msg ''No variant of vim was found on your system'')]
   \<and> EvLogError (Msg (usage_message ''vsm''))
       \<notin> set (events_of ''vsm'' args_none no_editor_world)"
  by (simp add: no_flags_def events_of_def eval_defs example_defs)

text \<open>
  Claim C9 says that a session file is unlinked only after the user has confirmed the
  removal. The entry point asks nothing: on \<^verbatim>\<open>--remove foo.vim\<close> the whole run
  is the resolution, the warning, the unlink and the final line, and the file is gone.
\<close>

theorem remove_without_confirmation:
  "main ''vsm'' args_remove_foo example_world =
     (Exit 0, example_world\<lparr>w_files := [], w_trace :=
        [EvIsInstalled ''nvim'' True, EvCli, EvVimSessionManager,
         EvRemoveSession (Path ''foo.vim'') (Inr (Path ''/tmp/x/foo.vim'')),
         EvLogWarn (Msg ''Removing session -> /tmp/x/foo.vim''),
         EvUnlink (Path ''/tmp/x/foo.vim''),
         EvLogInfo (Msg ''Done..'')]\<rparr>)"
  by (simp add: eval_defs example_defs)

text \<open>
  Claim C2. The environment variable that overrides the sessions directory is named
  exactly \<^verbatim>\<open>VIM_SESSIONS\<close>; the sessions directory is the value of that variable
  when it is set and non-empty, and otherwise the default of Config, which is
  \<^verbatim>\<open>.config/vim_sessions\<close> under the home directory.
\<close>

theorem sessions_directory:
  "vsm_env_var = ''VIM_SESSIONS''
   \<and> (\<forall>v. w_environ w ''VIM_SESSIONS'' = Some v \<and> v \<noteq> [] \<longrightarrow>
         resolve_sessions_directory w = Path v)
   \<and> (w_environ w ''VIM_SESSIONS'' = None \<or> w_environ w ''VIM_SESSIONS'' = Some [] \<longrightarrow>
         resolve_sessions_directory w = default_sessions_directory (w_home w))
   \<and> default_sessions_directory home =
        \<lparr>anchor = anchor home, parts = parts home @ [''.config'', ''vim_sessions'']\<rparr>"
  by (auto simp: vsm_env_var_def resolve_sessions_directory_def default_sessions_directory_def
      pdiv_def Path_def is_absolute_def)

theorem sessions_directory_witness:
  "w_environ example_world ''VIM_SESSIONS'' = Some ''/tmp/x''
   \<and> path_str (resolve_sessions_directory example_world) = ''/tmp/x''
   \<and> w_environ (example_world\<lparr>w_environ := (\<lambda>k. None)\<rparr>) ''VIM_SESSIONS'' = None
   \<and> path_str (resolve_sessions_directory (example_world\<lparr>w_environ := (\<lambda>k. None)\<rparr>))
       = ''/home/u/.config/vim_sessions''"
  using sessions_directory [of example_world "Path ''/home/u''"]
    sessions_directory [of "example_world\<lparr>w_environ := (\<lambda>k. None)\<rparr>" "Path ''/home/u''"]
  by (simp add: example_defs path_str_def Path_def)

section \<open>Properties of the singleton metaclass\<close>

lemmas meta_defs = meta_call_def acquire_def release_def return_instance_def Let_def

lemma meta_call_existing:
  "instances m cls = Some r \<Longrightarrow>
     meta_call ctor cls args m = (Inr r, m\<lparr>lock_log := lock_log m @ [Acquire, Release]\<rparr>)"
  by (simp add: meta_defs)

lemma meta_call_returns:
  "meta_call ctor cls args m = (Inr r, m1) \<Longrightarrow> instances m1 cls = Some r"
  by (auto simp: meta_defs split: if_splits sum.splits option.splits)

lemma meta_call_first:
  "instances m cls = None \<Longrightarrow> ctor cls args = Inr st \<Longrightarrow>
     meta_call ctor cls args m =
       (Inr (next_ref m),
        m\<lparr>instances := (instances m)(cls \<mapsto> next_ref m),
          heap := (heap m)(next_ref m \<mapsto> st),
          next_ref := Suc (next_ref m),
          lock_log := lock_log m @ [Acquire, Release]\<rparr>)"
  by (simp add: meta_defs)

lemma meta_call_raises:
  "instances m cls = None \<Longrightarrow> ctor cls args = Inl exc \<Longrightarrow>
     meta_call ctor cls args m = (Inl exc, m\<lparr>lock_log := lock_log m @ [Acquire, Release]\<rparr>)"
  by (simp add: meta_defs)

lemma meta_call_lock_log:
  "lock_log (snd (meta_call ctor cls args m)) = lock_log m @ [Acquire, Release]"
proof (cases "instances m cls")
  case None
  then show ?thesis
    by (cases "ctor cls args") (simp_all add: meta_call_first meta_call_raises)
next
  case (Some r)
  then show ?thesis by (simp add: meta_call_existing)
qed

text \<open>
  Claim C10. Constructor arguments are ignored once the singleton exists: for every
  class that uses the metaclass and any two argument lists \<open>a\<close> and \<open>b\<close>, a call
  with \<open>a\<close> that returns an instance is followed by a call with \<open>b\<close> that returns
  the identical instance and changes no object; when the call with \<open>a\<close> is the one
  that constructs, the state of the instance is what the constructor made of \<open>a\<close>,
  whatever \<open>b\<close> is.
\<close>

theorem ctor_args_ignored:
  "(\<forall>r. instances m cls = Some r \<longrightarrow>
       meta_call ctor cls b m = (Inr r, m\<lparr>lock_log := lock_log m @ [Acquire, Release]\<rparr>))
   \<and> (\<forall>r m1. meta_call ctor cls a m = (Inr r, m1) \<longrightarrow>
         fst (meta_call ctor cls b m1) = Inr r
         \<and> instances (snd (meta_call ctor cls b m1)) = instances m1
         \<and> heap (snd (meta_call ctor cls b m1)) = heap m1)
   \<and> (\<forall>st. instances m cls = None \<and> ctor cls a = Inr st \<longrightarrow>
         fst (meta_call ctor cls a m) = Inr (next_ref m)
         \<and> fst (meta_call ctor cls b (snd (meta_call ctor cls a m))) = Inr (next_ref m)
         \<and> heap (snd (meta_call ctor cls b (snd (meta_call ctor cls a m)))) (next_ref m)
             = Some st)"
proof (intro conjI allI impI)
  fix r assume "instances m cls = Some r"
  then show "meta_call ctor cls b m = (Inr r, m\<lparr>lock_log := lock_log m @ [Acquire, Release]\<rparr>)"
    by (rule meta_call_existing)
next
  fix r m1 assume "meta_call ctor cls a m = (Inr r, m1)"
  then have "instances m1 cls = Some r" by (rule meta_call_returns)
  then have e: "meta_call ctor cls b m1 = (Inr r, m1\<lparr>lock_log := lock_log m1 @ [Acquire, Release]\<rparr>)"
    by (rule meta_call_existing)
  show "fst (meta_call ctor cls b m1) = Inr r"
    and "instances (snd (meta_call ctor cls b m1)) = instances m1"
    and "heap (snd (meta_call ctor cls b m1)) = heap m1"
    by (simp_all add: e)
next
  fix st assume h: "instances m cls = None \<and> ctor cls a = Inr st"
  then have f: "meta_call ctor cls a m =
       (Inr (next_ref m),
        m\<lparr>instances := (instances m)(cls \<mapsto> next_ref m),
          heap := (heap m)(next_ref m \<mapsto> st),
          next_ref := Suc (next_ref m),
          lock_log := lock_log m @ [Acquire, Release]\<rparr>)"
    by (simp add: meta_call_first)
  show "fst (meta_call ctor cls a m) = Inr (next_ref m)" by (simp add: f)
  show "fst (meta_call ctor cls b (snd (meta_call ctor cls a m))) = Inr (next_ref m)"
    and "heap (snd (meta_call ctor cls b (snd (meta_call ctor cls a m)))) (next_ref m) = Some st"
    by (simp_all add: f meta_call_existing)
qed

lemma after_first_call_eq:
  "after_first_call =
     \<lparr>instances = (\<lambda>_. None)(Config \<mapsto> 0), heap = (\<lambda>_. None)(0 \<mapsto> ()), next_ref = Suc 0,
      lock_log = [Acquire, Release]\<rparr>"
  by (simp add: after_first_call_def meta_defs meta_init_def config_ctor_def)

theorem ctor_args_ignored_witness:
  "instances meta_init Config = None \<and> config_ctor Config [] = Inr ()
   \<and> fst (meta_call config_ctor Config [] meta_init) = Inr 0
   \<and> config_ctor Config [''x''] = Inl TypeError
   \<and> fst (meta_call config_ctor Config [''x''] after_first_call) = Inr 0
   \<and> heap (snd (meta_call config_ctor Config [''x''] after_first_call)) 0 = Some ()"
  using ctor_args_ignored [of meta_init Config config_ctor "[''x'']" "[]"]
  by (simp add: after_first_call_def meta_init_def config_ctor_def)

lemma first_call_done_eq:
  "first_call_done = \<lparr>lock = None, insts = (\<lambda>_. None)(Config \<mapsto> 0), fresh = Suc 0,
      built = [(Config, 0)], pcs = [Done 0, AtAcquire]\<rparr>"
  by (simp add: first_call_done_def sys_init_def thread_step_def numeral_2_eq_2)

text \<open>
  Claim C8 says that a call made after the instance exists returns it without acquiring
  the lock. \<^verbatim>\<open>__call__\<close> enters its \<^verbatim>\<open>with\<close> block on every call: the
  second \<^verbatim>\<open>Config()\<close> of a process returns the instance of the first and has
  acquired and released the lock to do so; and step by step, the first step of a call
  made when the first call has finished is to take the lock, with the membership test
  still ahead of it.
\<close>

theorem second_call_takes_lock:
  "instances after_first_call Config = Some 0
   \<and> meta_call config_ctor Config [] after_first_call =
       (Inr 0, after_first_call\<lparr>lock_log := [Acquire, Release, Acquire, Release]\<rparr>)
   \<and> insts first_call_done Config = Some 0
   \<and> lock first_call_done = None
   \<and> pcs first_call_done = [Done 0, AtAcquire]
   \<and> thread_step (\<lambda>t. Config) (\<lambda>t. True) 1 first_call_done =
       first_call_done\<lparr>lock := Some 1, pcs := [Done 0, AtCheck]\<rparr>"
  by (simp add: after_first_call_eq meta_defs first_call_done_eq thread_step_def)

subsection \<open>Calls from several threads: the invariant\<close>

lemma sys_inv_init: "sys_inv cls_of ctor_ok (sys_init n)"
  by (simp add: sys_inv_def sys_init_def pc_ok_def)

lemma pc_ok_same:
  "lock s' = lock s \<Longrightarrow> insts s' = insts s \<Longrightarrow>
     pc_ok cls_of ctor_ok s u p \<Longrightarrow> pc_ok cls_of ctor_ok s' u p"
  by (simp add: pc_ok_def split: pc.splits)

lemma pc_ok_holder:
  "pc_ok cls_of ctor_ok s u p \<Longrightarrow> in_critical p \<Longrightarrow> lock s = Some u"
  by (cases p) (simp_all add: pc_ok_def in_critical_def)

lemma pc_ok_outside:
  assumes "pc_ok cls_of ctor_ok s u p" and "\<not> in_critical p"
    and "\<And>c r. insts s c = Some r \<Longrightarrow> insts s' c = Some r"
  shows "pc_ok cls_of ctor_ok s' u p"
proof (cases p)
  case AtReturn
  with assms(1) obtain r where "insts s (cls_of u) = Some r" by (auto simp: pc_ok_def)
  from assms(3) [OF this] AtReturn show ?thesis by (simp add: pc_ok_def)
next
  case (Done r)
  with assms(1) have "insts s (cls_of u) = Some r" by (simp add: pc_ok_def)
  from assms(3) [OF this] Done show ?thesis by (simp add: pc_ok_def)
qed (use assms(1,2) in \<open>simp_all add: pc_ok_def in_critical_def\<close>)

text \<open>The parts of the invariant, one by one.\<close>

lemma sys_invD:
  assumes "sys_inv cls_of ctor_ok s"
  shows "u < length (pcs s) \<Longrightarrow> pc_ok cls_of ctor_ok s u (pcs s ! u)"
    and "lock s = Some v \<Longrightarrow> v < length (pcs s) \<and> in_critical (pcs s ! v)"
    and "distinct (map fst (built s))"
    and "(c, r) \<in> set (built s) \<Longrightarrow>
            insts s c = Some r
            \<or> (\<exists>t < length (pcs s). pcs s ! t = AtStore r \<and> cls_of t = c)"
  using assms unfolding sys_inv_def by blast+

lemma sys_invI:
  assumes "\<And>u. u < length (pcs s) \<Longrightarrow> pc_ok cls_of ctor_ok s u (pcs s ! u)"
    and "\<And>v. lock s = Some v \<Longrightarrow> v < length (pcs s) \<and> in_critical (pcs s ! v)"
    and "distinct (map fst (built s))"
    and "\<And>c r. (c, r) \<in> set (built s) \<Longrightarrow>
            insts s c = Some r
            \<or> (\<exists>t < length (pcs s). pcs s ! t = AtStore r \<and> cls_of t = c)"
  shows "sys_inv cls_of ctor_ok s"
  using assms unfolding sys_inv_def by blast

text \<open>Another call is outside the block while call \<open>t\<close> holds the lock, or nobody does.\<close>

lemma other_outside:
  assumes "sys_inv cls_of ctor_ok s" and "u < length (pcs s)"
    and "lock s \<noteq> Some u"
  shows "\<not> in_critical (pcs s ! u)"
  using pc_ok_holder [OF sys_invD(1) [OF assms(1,2)]] assms(3) by blast

lemma sys_inv_update:
  assumes inv: "sys_inv cls_of ctor_ok s" and t: "t < length (pcs s)"
    and pcs': "pcs s' = (pcs s)[t := p']"
    and self: "pc_ok cls_of ctor_ok s' t p'"
    and frame: "(lock s' = lock s \<and> insts s' = insts s)
                \<or> ((lock s = Some t \<or> lock s = None)
                    \<and> (\<forall>c r. insts s c = Some r \<longrightarrow> insts s' c = Some r))"
    and lk: "\<And>v. lock s' = Some v \<Longrightarrow>
                (v = t \<and> in_critical p') \<or> (v \<noteq> t \<and> lock s = Some v)"
    and bd: "distinct (map fst (built s'))"
    and be: "\<And>c r. (c, r) \<in> set (built s') \<Longrightarrow>
                insts s' c = Some r \<or> (p' = AtStore r \<and> cls_of t = c)
                \<or> (\<exists>u < length (pcs s). u \<noteq> t \<and> pcs s ! u = AtStore r \<and> cls_of u = c)"
  shows "sys_inv cls_of ctor_ok s'"
proof (rule sys_invI)
  fix u assume "u < length (pcs s')"
  then have u: "u < length (pcs s)" by (simp add: pcs')
  show "pc_ok cls_of ctor_ok s' u (pcs s' ! u)"
  proof (cases "u = t")
    case True
    with self t show ?thesis by (simp add: pcs')
  next
    case False
    note o = sys_invD(1) [OF inv u]
    from frame have "pc_ok cls_of ctor_ok s' u (pcs s ! u)"
    proof (elim disjE conjE)
      assume "lock s' = lock s" "insts s' = insts s"
      then show ?thesis using o by (rule pc_ok_same)
    next
      assume "lock s = Some t" "\<forall>c r. insts s c = Some r \<longrightarrow> insts s' c = Some r"
      with False have "lock s \<noteq> Some u" by simp
      from o other_outside [OF inv u this] show ?thesis
        by (rule pc_ok_outside) (simp add: \<open>\<forall>c r. insts s c = Some r \<longrightarrow> insts s' c = Some r\<close>)
    next
      assume "lock s = None" "\<forall>c r. insts s c = Some r \<longrightarrow> insts s' c = Some r"
      then have "lock s \<noteq> Some u" by simp
      from o other_outside [OF inv u this] show ?thesis
        by (rule pc_ok_outside) (simp add: \<open>\<forall>c r. insts s c = Some r \<longrightarrow> insts s' c = Some r\<close>)
    qed
    with False show ?thesis by (simp add: pcs')
  qed
next
  fix v assume "lock s' = Some v"
  from lk [OF this] show "v < length (pcs s') \<and> in_critical (pcs s' ! v)"
  proof
    assume "v = t \<and> in_critical p'"
    with t show ?thesis by (simp add: pcs')
  next
    assume a: "v \<noteq> t \<and> lock s = Some v"
    with sys_invD(2) [OF inv, of v] show ?thesis by (simp add: pcs')
  qed
next
  show "distinct (map fst (built s'))" by (rule bd)
next
  fix c r assume "(c, r) \<in> set (built s')"
  from be [OF this]
  show "insts s' c = Some r
          \<or> (\<exists>t < length (pcs s'). pcs s' ! t = AtStore r \<and> cls_of t = c)"
  proof (elim disjE exE conjE)
    assume "insts s' c = Some r"
    then show ?thesis by simp
  next
    assume "p' = AtStore r" "cls_of t = c"
    with t have "t < length (pcs s') \<and> pcs s' ! t = AtStore r \<and> cls_of t = c"
      by (simp add: pcs')
    then show ?thesis by blast
  next
    fix u assume "u < length (pcs s)" "u \<noteq> t" "pcs s ! u = AtStore r" "cls_of u = c"
    then have "u < length (pcs s') \<and> pcs s' ! u = AtStore r \<and> cls_of u = c"
      by (simp add: pcs')
    then show ?thesis by blast
  qed
qed

text \<open>An entry of \<open>built\<close> whose object is not stored yet belongs to the lock holder.\<close>

lemma built_entry:
  assumes inv: "sys_inv cls_of ctor_ok s" and t: "t < length (pcs s)"
    and lk: "lock s = Some t \<or> lock s = None" and nst: "\<forall>r. pcs s ! t \<noteq> AtStore r"
    and b: "(c, r) \<in> set (built s)"
  shows "insts s c = Some r"
proof -
  from sys_invD(4) [OF inv b] show ?thesis
  proof
    assume "\<exists>u < length (pcs s). pcs s ! u = AtStore r \<and> cls_of u = c"
    then obtain u where u: "u < length (pcs s)" "pcs s ! u = AtStore r" by blast
    have "in_critical (pcs s ! u)" by (simp add: u in_critical_def)
    from pc_ok_holder [OF sys_invD(1) [OF inv u(1)] this] lk have "u = t" by auto
    with u nst show ?thesis by simp
  qed
qed

lemma sys_inv_step:
  assumes inv: "sys_inv cls_of ctor_ok s"
  shows "sys_inv cls_of ctor_ok (thread_step cls_of ctor_ok t s)"
proof (cases "t < length (pcs s)")
  case False
  then show ?thesis using inv by (simp add: thread_step_def)
next
  case t: True
  note ok = sys_invD(1) [OF inv t]
  note bd = sys_invD(3) [OF inv]
  show ?thesis
  proof (cases "pcs s ! t")
    case AtAcquire
    show ?thesis
    proof (cases "lock s")
      case (Some h)
      then show ?thesis using inv t AtAcquire by (simp add: thread_step_def)
    next
      case None
      have e: "thread_step cls_of ctor_ok t s = s\<lparr>lock := Some t, pcs := (pcs s)[t := AtCheck]\<rparr>"
        using t AtAcquire None by (simp add: thread_step_def)
      show ?thesis unfolding e
      proof (rule sys_inv_update [OF inv t, where p' = AtCheck])
        fix c r assume "(c, r) \<in> set (built (s\<lparr>lock := Some t, pcs := (pcs s)[t := AtCheck]\<rparr>))"
        then have "insts s c = Some r"
          using built_entry [OF inv t, of c r] None AtAcquire by simp
        then show "insts (s\<lparr>lock := Some t, pcs := (pcs s)[t := AtCheck]\<rparr>) c = Some r
           \<or> (AtCheck = AtStore r \<and> cls_of t = c)
           \<or> (\<exists>u < length (pcs s). u \<noteq> t \<and> pcs s ! u = AtStore r \<and> cls_of u = c)"
          by simp
      qed (use None bd in \<open>simp_all add: pc_ok_def in_critical_def\<close>)
    qed
  next
    case AtCheck
    from ok AtCheck have lk: "lock s = Some t" by (simp add: pc_ok_def)
    show ?thesis
    proof (cases "insts s (cls_of t)")
      case None
      have e: "thread_step cls_of ctor_ok t s = s\<lparr>pcs := (pcs s)[t := AtConstruct]\<rparr>"
        using t AtCheck None by (simp add: thread_step_def)
      show ?thesis unfolding e
      proof (rule sys_inv_update [OF inv t, where p' = AtConstruct])
        fix c r assume "(c, r) \<in> set (built (s\<lparr>pcs := (pcs s)[t := AtConstruct]\<rparr>))"
        then have "insts s c = Some r"
          using built_entry [OF inv t, of c r] lk AtCheck by simp
        then show "insts (s\<lparr>pcs := (pcs s)[t := AtConstruct]\<rparr>) c = Some r
           \<or> (AtConstruct = AtStore r \<and> cls_of t = c)
           \<or> (\<exists>u < length (pcs s). u \<noteq> t \<and> pcs s ! u = AtStore r \<and> cls_of u = c)"
          by simp
      qed (use None lk bd in \<open>simp_all add: pc_ok_def in_critical_def\<close>)
    next
      case (Some r0)
      have e: "thread_step cls_of ctor_ok t s = s\<lparr>pcs := (pcs s)[t := AtRelease]\<rparr>"
        using t AtCheck Some by (simp add: thread_step_def)
      show ?thesis unfolding e
      proof (rule sys_inv_update [OF inv t, where p' = AtRelease])
        fix c r assume "(c, r) \<in> set (built (s\<lparr>pcs := (pcs s)[t := AtRelease]\<rparr>))"
        then have "insts s c = Some r"
          using built_entry [OF inv t, of c r] lk AtCheck by simp
        then show "insts (s\<lparr>pcs := (pcs s)[t := AtRelease]\<rparr>) c = Some r
           \<or> (AtRelease = AtStore r \<and> cls_of t = c)
           \<or> (\<exists>u < length (pcs s). u \<noteq> t \<and> pcs s ! u = AtStore r \<and> cls_of u = c)"
          by simp
      qed (use Some lk bd in \<open>simp_all add: pc_ok_def in_critical_def\<close>)
    qed
  next
    case AtConstruct
    from ok AtConstruct have lk: "lock s = Some t" and none: "insts s (cls_of t) = None"
      by (simp_all add: pc_ok_def)
    show ?thesis
    proof (cases "ctor_ok t")
      case True
      have e: "thread_step cls_of ctor_ok t s =
          s\<lparr>fresh := Suc (fresh s), built := built s @ [(cls_of t, fresh s)],
            pcs := (pcs s)[t := AtStore (fresh s)]\<rparr>"
        using t AtConstruct True by (simp add: thread_step_def)
      have new: "cls_of t \<notin> fst ` set (built s)"
      proof
        assume "cls_of t \<in> fst ` set (built s)"
        then obtain r where "(cls_of t, r) \<in> set (built s)" by auto
        from built_entry [OF inv t _ _ this] lk AtConstruct none show False by simp
      qed
      show ?thesis unfolding e
      proof (rule sys_inv_update [OF inv t, where p' = "AtStore (fresh s)"])
        fix c r
        assume "(c, r) \<in> set (built (s\<lparr>fresh := Suc (fresh s),
            built := built s @ [(cls_of t, fresh s)],
            pcs := (pcs s)[t := AtStore (fresh s)]\<rparr>))"
        then have "(c, r) \<in> set (built s) \<or> (c = cls_of t \<and> r = fresh s)" by auto
        then show "insts (s\<lparr>fresh := Suc (fresh s),
            built := built s @ [(cls_of t, fresh s)],
            pcs := (pcs s)[t := AtStore (fresh s)]\<rparr>) c = Some r
           \<or> (AtStore (fresh s) = AtStore r \<and> cls_of t = c)
           \<or> (\<exists>u < length (pcs s). u \<noteq> t \<and> pcs s ! u = AtStore r \<and> cls_of u = c)"
          using built_entry [OF inv t, of c r] lk AtConstruct by auto
      qed (use none lk bd new in \<open>simp_all add: pc_ok_def in_critical_def\<close>)
    next
      case False
      have e: "thread_step cls_of ctor_ok t s = s\<lparr>pcs := (pcs s)[t := AtReleaseExc]\<rparr>"
        using t AtConstruct False by (simp add: thread_step_def)
      show ?thesis unfolding e
      proof (rule sys_inv_update [OF inv t, where p' = AtReleaseExc])
        fix c r assume "(c, r) \<in> set (built (s\<lparr>pcs := (pcs s)[t := AtReleaseExc]\<rparr>))"
        then have "insts s c = Some r"
          using built_entry [OF inv t, of c r] lk AtConstruct by simp
        then show "insts (s\<lparr>pcs := (pcs s)[t := AtReleaseExc]\<rparr>) c = Some r
           \<or> (AtReleaseExc = AtStore r \<and> cls_of t = c)
           \<or> (\<exists>u < length (pcs s). u \<noteq> t \<and> pcs s ! u = AtStore r \<and> cls_of u = c)"
          by simp
      qed (use False lk bd in \<open>simp_all add: pc_ok_def in_critical_def\<close>)
    qed
  next
    case (AtStore r0)
    from ok AtStore have lk: "lock s = Some t" and none: "insts s (cls_of t) = None"
      by (simp_all add: pc_ok_def)
    have e: "thread_step cls_of ctor_ok t s =
        s\<lparr>insts := (insts s)(cls_of t \<mapsto> r0), pcs := (pcs s)[t := AtRelease]\<rparr>"
      using t AtStore by (simp add: thread_step_def)
    have mono: "((insts s)(cls_of t \<mapsto> r0)) c = Some r" if "insts s c = Some r" for c r
      using that none by auto
    show ?thesis unfolding e
    proof (rule sys_inv_update [OF inv t, where p' = AtRelease])
      fix c r
      assume b: "(c, r) \<in> set (built (s\<lparr>insts := (insts s)(cls_of t \<mapsto> r0),
          pcs := (pcs s)[t := AtRelease]\<rparr>))"
      then have b: "(c, r) \<in> set (built s)" by simp
      from sys_invD(4) [OF inv b]
      have "((insts s)(cls_of t \<mapsto> r0)) c = Some r"
      proof
        assume "insts s c = Some r" then show ?thesis by (rule mono)
      next
        assume "\<exists>u < length (pcs s). pcs s ! u = AtStore r \<and> cls_of u = c"
        then obtain u where u: "u < length (pcs s)" "pcs s ! u = AtStore r" "cls_of u = c"
          by blast
        have "in_critical (pcs s ! u)" by (simp add: u in_critical_def)
        from pc_ok_holder [OF sys_invD(1) [OF inv u(1)] this] lk have "u = t" by simp
        with u AtStore show ?thesis by simp
      qed
      then show "insts (s\<lparr>insts := (insts s)(cls_of t \<mapsto> r0),
          pcs := (pcs s)[t := AtRelease]\<rparr>) c = Some r
         \<or> (AtRelease = AtStore r \<and> cls_of t = c)
         \<or> (\<exists>u < length (pcs s). u \<noteq> t \<and> pcs s ! u = AtStore r \<and> cls_of u = c)"
        by simp
    qed (use lk bd none in \<open>simp_all add: pc_ok_def in_critical_def\<close>)
  next
    case AtRelease
    from ok AtRelease have lk: "lock s = Some t" and some: "insts s (cls_of t) \<noteq> None"
      by (simp_all add: pc_ok_def)
    have e: "thread_step cls_of ctor_ok t s = s\<lparr>lock := None, pcs := (pcs s)[t := AtReturn]\<rparr>"
      using t AtRelease by (simp add: thread_step_def)
    show ?thesis unfolding e
    proof (rule sys_inv_update [OF inv t, where p' = AtReturn])
      fix c r assume "(c, r) \<in> set (built (s\<lparr>lock := None, pcs := (pcs s)[t := AtReturn]\<rparr>))"
      then have "insts s c = Some r"
        using built_entry [OF inv t, of c r] lk AtRelease by simp
      then show "insts (s\<lparr>lock := None, pcs := (pcs s)[t := AtReturn]\<rparr>) c = Some r
         \<or> (AtReturn = AtStore r \<and> cls_of t = c)
         \<or> (\<exists>u < length (pcs s). u \<noteq> t \<and> pcs s ! u = AtStore r \<and> cls_of u = c)"
        by simp
    qed (use some lk bd in \<open>simp_all add: pc_ok_def in_critical_def\<close>)
  next
    case AtReleaseExc
    from ok AtReleaseExc have lk: "lock s = Some t" and bad: "\<not> ctor_ok t"
      by (simp_all add: pc_ok_def)
    have e: "thread_step cls_of ctor_ok t s = s\<lparr>lock := None, pcs := (pcs s)[t := Raised]\<rparr>"
      using t AtReleaseExc by (simp add: thread_step_def)
    show ?thesis unfolding e
    proof (rule sys_inv_update [OF inv t, where p' = Raised])
      fix c r assume "(c, r) \<in> set (built (s\<lparr>lock := None, pcs := (pcs s)[t := Raised]\<rparr>))"
      then have "insts s c = Some r"
        using built_entry [OF inv t, of c r] lk AtReleaseExc by simp
      then show "insts (s\<lparr>lock := None, pcs := (pcs s)[t := Raised]\<rparr>) c = Some r
         \<or> (Raised = AtStore r \<and> cls_of t = c)
         \<or> (\<exists>u < length (pcs s). u \<noteq> t \<and> pcs s ! u = AtStore r \<and> cls_of u = c)"
        by simp
    qed (use bad lk bd in \<open>simp_all add: pc_ok_def in_critical_def\<close>)
  next
    case AtReturn
    from ok AtReturn obtain r0 where some: "insts s (cls_of t) = Some r0"
      by (auto simp: pc_ok_def)
    have nl: "lock s \<noteq> Some t"
      using sys_invD(2) [OF inv, of t] AtReturn by (auto simp: in_critical_def)
    have e: "thread_step cls_of ctor_ok t s = s\<lparr>pcs := (pcs s)[t := Done r0]\<rparr>"
      using t AtReturn some by (simp add: thread_step_def)
    show ?thesis unfolding e
    proof (rule sys_inv_update [OF inv t, where p' = "Done r0"])
      fix c r assume "(c, r) \<in> set (built (s\<lparr>pcs := (pcs s)[t := Done r0]\<rparr>))"
      then have b: "(c, r) \<in> set (built s)" by simp
      from sys_invD(4) [OF inv b]
      show "insts (s\<lparr>pcs := (pcs s)[t := Done r0]\<rparr>) c = Some r
         \<or> (Done r0 = AtStore r \<and> cls_of t = c)
         \<or> (\<exists>u < length (pcs s). u \<noteq> t \<and> pcs s ! u = AtStore r \<and> cls_of u = c)"
        using AtReturn by auto
    next
      fix v assume "lock (s\<lparr>pcs := (pcs s)[t := Done r0]\<rparr>) = Some v"
      with nl show "(v = t \<and> in_critical (Done r0)) \<or> (v \<noteq> t \<and> lock s = Some v)"
        by auto
    qed (use some bd in \<open>simp_all add: pc_ok_def in_critical_def\<close>)
  next
    case (Done r0)
    then show ?thesis using inv t by (simp add: thread_step_def)
  next
    case Raised
    then show ?thesis using inv t by (simp add: thread_step_def)
  qed
qed

lemma step_length: "length (pcs (thread_step cls_of ctor_ok t s)) = length (pcs s)"
  by (simp add: thread_step_def split: pc.splits option.splits)

lemma run_length: "length (pcs (run cls_of ctor_ok sched s)) = length (pcs s)"
  by (induction sched arbitrary: s) (simp_all add: step_length)

lemma sys_inv_run:
  "sys_inv cls_of ctor_ok s \<Longrightarrow> sys_inv cls_of ctor_ok (run cls_of ctor_ok sched s)"
  by (induction sched arbitrary: s) (simp_all add: sys_inv_step)

lemma insts_stable_step:
  assumes inv: "sys_inv cls_of ctor_ok s" and i: "insts s c = Some r"
  shows "insts (thread_step cls_of ctor_ok t s) c = Some r"
proof (cases "t < length (pcs s)")
  case False
  then show ?thesis using i by (simp add: thread_step_def)
next
  case True
  note ok = sys_invD(1) [OF inv True]
  show ?thesis
  proof (cases "pcs s ! t")
    case (AtStore r0)
    with ok have "insts s (cls_of t) = None" by (simp add: pc_ok_def)
    with i have "c \<noteq> cls_of t" by auto
    with i True AtStore show ?thesis by (simp add: thread_step_def)
  qed (use i True in \<open>simp_all add: thread_step_def split: option.splits\<close>)
qed

lemma insts_stable_run:
  "sys_inv cls_of ctor_ok s \<Longrightarrow> insts s c = Some r \<Longrightarrow>
     insts (run cls_of ctor_ok sched s) c = Some r"
  by (induction sched arbitrary: s) (simp_all add: sys_inv_step insts_stable_step)

lemma distinct_keys_once:
  "distinct (map fst xs) \<Longrightarrow> length (filter (\<lambda>b. fst b = c) xs) \<le> Suc 0"
proof (induction xs)
  case Nil
  then show ?case by simp
next
  case (Cons x xs)
  show ?case
  proof (cases "fst x = c")
    case True
    have "fst b \<noteq> c" if "b \<in> set xs" for b
    proof
      assume "fst b = c"
      with that True have "fst x \<in> fst ` set xs" by (metis imageI)
      with Cons.prems show False by simp
    qed
    then have "filter (\<lambda>b. fst b = c) xs = []"
      by (simp add: filter_empty_conv)
    with True show ?thesis by simp
  next
    case False
    with Cons show ?thesis by simp
  qed
qed

lemma step_decreases:
  "thread_step cls_of ctor_ok t s = s
   \<or> work_left (thread_step cls_of ctor_ok t s) < work_left s"
proof (cases "t < length (pcs s)")
  case False
  then show ?thesis by (simp add: thread_step_def)
next
  case True
  have upd: "work_left (s'\<lparr>pcs := (pcs s)[t := p']\<rparr>) < work_left s"
    if "steps_left p' < steps_left (pcs s ! t)" for p' and s' :: "'a sys"
  proof -
    have "sum_list (map steps_left ((pcs s)[t := p']))
        = sum_list (map steps_left (pcs s)) + steps_left p' - steps_left (pcs s ! t)"
      using True by (simp add: map_update sum_list_update)
    moreover have "steps_left (pcs s ! t) \<le> sum_list (map steps_left (pcs s))"
      using True by (simp add: member_le_sum_list)
    ultimately show ?thesis using that by (simp add: work_left_def)
  qed
  show ?thesis
  proof (cases "pcs s ! t")
    case AtAcquire
    then show ?thesis using True
      by (cases "lock s") (simp_all add: thread_step_def upd steps_left_def)
  next
    case AtCheck
    then show ?thesis using True
      by (cases "insts s (cls_of t)") (simp_all add: thread_step_def upd steps_left_def)
  next
    case AtConstruct
    then show ?thesis using True
      by (cases "ctor_ok t") (simp_all add: thread_step_def upd steps_left_def)
  next
    case AtReturn
    then show ?thesis using True
      by (cases "insts s (cls_of t)") (simp_all add: thread_step_def upd steps_left_def)
  qed (use True in \<open>simp_all add: thread_step_def upd steps_left_def\<close>)
qed

lemma can_step:
  assumes inv: "sys_inv cls_of ctor_ok s" and t: "t < length (pcs s)"
    and holder: "lock s = Some t \<or> (lock s = None \<and> \<not> finished (pcs s ! t))"
  shows "thread_step cls_of ctor_ok t s \<noteq> s"
proof -
  have neq: "s'\<lparr>pcs := (pcs s)[t := p']\<rparr> \<noteq> s" if "p' \<noteq> pcs s ! t" for p' and s' :: "'a sys"
  proof
    assume "s'\<lparr>pcs := (pcs s)[t := p']\<rparr> = s"
    then have "pcs (s'\<lparr>pcs := (pcs s)[t := p']\<rparr>) ! t = pcs s ! t" by simp
    with t that show False by simp
  qed
  from holder show ?thesis
  proof
    assume lk: "lock s = Some t"
    from sys_invD(2) [OF inv lk] have "in_critical (pcs s ! t)" by simp
    then show ?thesis using t
      by (cases "pcs s ! t")
         (auto simp: in_critical_def thread_step_def neq split: option.splits)
  next
    assume a: "lock s = None \<and> \<not> finished (pcs s ! t)"
    with other_outside [OF inv t] have "\<not> in_critical (pcs s ! t)" by simp
    with a show ?thesis using t
      by (cases "pcs s ! t")
         (auto simp: in_critical_def finished_def thread_step_def neq split: option.splits)
  qed
qed

lemma stuck_finished:
  assumes inv: "sys_inv cls_of ctor_ok s"
    and stuck: "\<forall>u. thread_step cls_of ctor_ok u s = s"
    and t: "t < length (pcs s)"
  shows "finished (pcs s ! t)"
proof (cases "lock s")
  case None
  with can_step [OF inv t] stuck show ?thesis by blast
next
  case (Some h)
  from sys_invD(2) [OF inv Some] have "h < length (pcs s)" by simp
  from can_step [OF inv this] Some stuck show ?thesis by blast
qed

lemma can_finish:
  "sys_inv cls_of ctor_ok s \<Longrightarrow>
     \<exists>sched. \<forall>t < length (pcs s). finished (pcs (run cls_of ctor_ok sched s) ! t)"
proof (induction "work_left s" arbitrary: s rule: less_induct)
  case less
  show ?case
  proof (cases "\<forall>u. thread_step cls_of ctor_ok u s = s")
    case True
    with stuck_finished [OF less.prems] have "\<forall>t < length (pcs s). finished (pcs (run cls_of ctor_ok [] s) ! t)"
      by simp
    then show ?thesis by blast
  next
    case False
    then obtain u where u: "thread_step cls_of ctor_ok u s \<noteq> s" by blast
    let ?s' = "thread_step cls_of ctor_ok u s"
    from step_decreases [of cls_of ctor_ok u s] u have "work_left ?s' < work_left s" by simp
    from less.hyps [OF this sys_inv_step [OF less.prems]]
    obtain sched where "\<forall>t < length (pcs ?s'). finished (pcs (run cls_of ctor_ok sched ?s') ! t)"
      by blast
    then have "\<forall>t < length (pcs s). finished (pcs (run cls_of ctor_ok (u # sched) s) ! t)"
      by (simp add: step_length)
    then show ?thesis by blast
  qed
qed

lemma two_calls_eq:
  "two_calls = \<lparr>lock = None, insts = (\<lambda>_. None)(Config \<mapsto> 0), fresh = Suc 0,
      built = [(Config, 0)], pcs = [Done 0, Done 0]\<rparr>"
  by (simp add: two_calls_def sys_init_def thread_step_def numeral_2_eq_2)

text \<open>
  Claim C7. The singleton is constructed at most once per process: in every state that
  any interleaving of any number of calls reaches, concurrent first calls included, all
  calls on one class that have returned hold the identical instance, at most one
  construction of the class has happened, and the entry of the class is never replaced
  afterwards. A call \<^verbatim>\<open>Config()\<close>, whose construction cannot fail, never raises,
  and the calls do return: every step that changes the state uses up some of the work
  left, a state in which no call can move has all calls finished, and some continuation
  finishes them all.
\<close>

theorem singleton_constructed_once:
  assumes "s = run cls_of ctor_ok sched (sys_init n)"
  shows "(\<forall>t u r r'. t < n \<and> u < n \<and> cls_of t = cls_of u
            \<and> pcs s ! t = Done r \<and> pcs s ! u = Done r' \<longrightarrow> r = r')
    \<and> constructions c s \<le> 1
    \<and> (\<forall>r more. insts s c = Some r \<longrightarrow> insts (run cls_of ctor_ok more s) c = Some r)
    \<and> ((\<forall>t < n. ctor_ok t) \<longrightarrow> (\<forall>t < n. pcs s ! t \<noteq> Raised))
    \<and> (\<forall>u. thread_step cls_of ctor_ok u s = s
            \<or> work_left (thread_step cls_of ctor_ok u s) < work_left s)
    \<and> ((\<forall>u. thread_step cls_of ctor_ok u s = s) \<longrightarrow> (\<forall>t < n. finished (pcs s ! t)))
    \<and> (\<exists>more. \<forall>t < n. finished (pcs (run cls_of ctor_ok more s) ! t))"
proof -
  have inv: "sys_inv cls_of ctor_ok s"
    unfolding assms by (rule sys_inv_run [OF sys_inv_init])
  have n: "length (pcs s) = n"
    unfolding assms by (simp add: run_length sys_init_def)
  note ok = sys_invD(1) [OF inv, unfolded n]
  have same: "r = r'"
    if "t < n" "u < n" "cls_of t = cls_of u" "pcs s ! t = Done r" "pcs s ! u = Done r'"
    for t u r r'
    using ok [OF that(1)] ok [OF that(2)] that(3-5) by (simp add: pc_ok_def)
  have once: "constructions c s \<le> 1"
    using distinct_keys_once [OF sys_invD(3) [OF inv]] by (simp add: constructions_def)
  have stable: "insts (run cls_of ctor_ok more s) c = Some r" if "insts s c = Some r" for r more
    using inv that by (rule insts_stable_run)
  have returns: "pcs s ! t \<noteq> Raised" if "\<forall>t < n. ctor_ok t" "t < n" for t
    using ok [OF that(2)] that by (auto simp: pc_ok_def)
  have stuck: "finished (pcs s ! t)"
    if "\<forall>u. thread_step cls_of ctor_ok u s = s" "t < n" for t
    using stuck_finished [OF inv that(1)] that(2) n by simp
  from can_finish [OF inv] n
  have fin: "\<exists>more. \<forall>t < n. finished (pcs (run cls_of ctor_ok more s) ! t)" by simp
  from same once stable returns stuck fin step_decreases [of cls_of ctor_ok _ s]
  show ?thesis by blast
qed

theorem singleton_constructed_once_witness:
  "two_calls = run (\<lambda>t. Config) (\<lambda>t. True) [0, 1, 0, 0, 0, 0, 1, 1, 1, 0, 1] (sys_init 2)
   \<and> pcs two_calls ! 0 = Done 0 \<and> pcs two_calls ! 1 = Done 0
   \<and> constructions Config two_calls = 1
   \<and> insts two_calls Config = Some 0"
proof -
  have r: "two_calls =
      run (\<lambda>t. Config) (\<lambda>t. True) [0, 1, 0, 0, 0, 0, 1, 1, 1, 0, 1] (sys_init 2)"
    by (simp add: two_calls_def)
  note once = singleton_constructed_once [OF r, of Config, THEN conjunct2, THEN conjunct1]
  have p: "pcs two_calls ! 0 = Done 0" "pcs two_calls ! 1 = Done 0"
    "insts two_calls Config = Some 0" "1 \<le> constructions Config two_calls"
    by (simp_all add: two_calls_eq constructions_def)
  from once p(4) have "constructions Config two_calls = 1" by simp
  with r p show ?thesis by blast
qed

end
